theory Spec2Isabelle
  imports Main "HOL-Library.Word" "HOL-Library.Multiset"
begin

section \<open>The milestone solidifier of hornet (plugins/tangle/solidifier.go)\<close>

text \<open>
  A shallow embedding of \<^verbatim>\<open>src/plugins/tangle/solidifier.go\<close>. The Go file works on
  the shared transaction cache of package \<^verbatim>\<open>tangle\<close>, on the gossip layer and on a few
  package-level variables. All of that is made explicit here: the store is a record that
  every function takes and returns, the effects on collaborators (events, gossip requests,
  worker-pool submissions, locks) are appended to a log, a \<^verbatim>\<open>log.Panicf\<close> is the outcome
  \<open>Panic\<close>, and a loop that the code does not bound takes fuel.
\<close>

subsection \<open>Data model\<close>

type_synonym Hash = string

text \<open>
  \<^verbatim>\<open>milestone_index.MilestoneIndex\<close> is declared in packages/model/milestone_index, an
  unsigned 32-bit integer; \<open>+\<close> wraps and \<open><\<close> is the unsigned order.
\<close>

type_synonym MilestoneIndex = "32 word"

text \<open>
  The fields of a transaction that the solidifier reads (\<^verbatim>\<open>GetTrunk\<close>, \<^verbatim>\<open>GetBranch\<close>,
  \<^verbatim>\<open>IsTail\<close>, \<^verbatim>\<open>Tx.Bundle\<close>, \<^verbatim>\<open>IsSolid\<close>). The hash of a transaction is the key under
  which the cache holds it, so \<^verbatim>\<open>GetHash\<close> of a handle is the hash the handle was
  obtained for.
\<close>

record Transaction =
  Trunk :: Hash
  Branch :: Hash
  IsTail :: bool
  Bundle :: Hash
  Solid :: bool

text \<open>
  A bundle as far as \<^verbatim>\<open>searchMissingMilestone\<close> looks at it: what
  \<^verbatim>\<open>tangle.CheckIfMilestone\<close> answers for it (an error is only logged and leaves
  \<open>isMilestone\<close> false) and its \<^verbatim>\<open>GetMilestoneIndex\<close>.
\<close>

record BundleInfo =
  CheckIfMilestone :: bool
  GetMilestoneIndex :: MilestoneIndex

text \<open>A registered milestone: its index and the hash of its tail transaction.\<close>

record Milestone =
  msIndex :: MilestoneIndex
  msTail :: Hash

text \<open>Every call that leaves the file, in the order the code makes it.\<close>

datatype Event =
    TransactionSolid Hash
  | RequestMulti "Hash list" MilestoneIndex
  | GossipSolidifierSubmit Hash
  | ProcessValidMilestone MilestoneIndex
  | CloseSignalChan
  | SolidifierLock
  | SolidifierUnlock
  | WriteLockLedger
  | WriteUnlockLedger
  | ConfirmMilestone MilestoneIndex Hash
  | StoreMilestoneInDatabase MilestoneIndex
  | SolidMilestoneChanged MilestoneIndex
  | TrySubmit MilestoneIndex

text \<open>
  The state the file reads and writes. \<open>cache\<close>, \<open>solidEntryPoints\<close>, \<open>consumers\<close> (the
  reference count of each cached handle), \<open>approversCache\<close>, \<open>nodeSynced\<close>,
  \<open>solidMilestoneIndex\<close>, \<open>latestMilestoneIndex\<close>, \<open>milestones\<close>, \<open>maybeMilestone\<close> and
  \<open>bundles\<close> belong to package \<^verbatim>\<open>tangle\<close>; \<open>solidifierMilestoneIndex\<close> and
  \<open>signalChanMilestoneStopSolidification\<close> (\<open>True\<close> when the variable holds a channel,
  \<open>False\<close> when it is nil) are the package-level variables of the file.
\<close>

record Tangle =
  cache :: "Hash \<rightharpoonup> Transaction"
  solidEntryPoints :: "Hash set"
  consumers :: "Hash \<Rightarrow> int"
  approversCache :: "Hash \<Rightarrow> Hash set"
  nodeSynced :: bool
  solidMilestoneIndex :: MilestoneIndex
  latestMilestoneIndex :: MilestoneIndex
  milestones :: "Milestone list"
  maybeMilestone :: "Hash \<Rightarrow> bool"
  bundles :: "Hash \<Rightarrow> (Hash \<rightharpoonup> BundleInfo) option"
  solidifierMilestoneIndex :: MilestoneIndex
  signalChanMilestoneStopSolidification :: bool
  events :: "Event list"

text \<open>What a call does: it returns a value, or it ends in \<^verbatim>\<open>log.Panicf\<close>.\<close>

datatype 'a Outcome = Returned 'a | Panic

subsection \<open>The collaborators of package tangle\<close>

text \<open>
  Modelled from the spec: package \<^verbatim>\<open>tangle\<close> (the cached-transaction handle and the
  store) is not part of the file. A handle is a borrowed reference with a per-entry
  reference count: \<^verbatim>\<open>GetCachedTransaction\<close> and \<^verbatim>\<open>RegisterConsumer\<close> acquire (count + 1),
  \<^verbatim>\<open>Release\<close> gives back (count - 1); a handle may report that the transaction does not
  exist.
\<close>

definition RegisterConsumer :: "Hash \<Rightarrow> Tangle \<Rightarrow> Tangle" where
  "RegisterConsumer h tg = tg\<lparr>consumers := (consumers tg)(h := consumers tg h + 1)\<rparr>"

definition Release :: "Hash \<Rightarrow> Tangle \<Rightarrow> Tangle" where
  "Release h tg = tg\<lparr>consumers := (consumers tg)(h := consumers tg h - 1)\<rparr>"

definition GetCachedTransaction :: "Hash \<Rightarrow> Tangle \<Rightarrow> Tangle" where
  "GetCachedTransaction h tg = RegisterConsumer h tg"

definition Exists :: "Tangle \<Rightarrow> Hash \<Rightarrow> bool" where
  "Exists tg h = (cache tg h \<noteq> None)"

definition IsSolid :: "Tangle \<Rightarrow> Hash \<Rightarrow> bool" where
  "IsSolid tg h = (case cache tg h of None \<Rightarrow> False | Some tx \<Rightarrow> Solid tx)"

definition SetSolid :: "Hash \<Rightarrow> Tangle \<Rightarrow> Tangle" where
  "SetSolid h tg =
     (case cache tg h of
        None \<Rightarrow> tg
      | Some tx \<Rightarrow> tg\<lparr>cache := (cache tg)(h \<mapsto> tx\<lparr>Solid := True\<rparr>)\<rparr>)"

definition SolidEntryPointsContain :: "Tangle \<Rightarrow> Hash \<Rightarrow> bool" where
  "SolidEntryPointsContain tg h = (h \<in> solidEntryPoints tg)"

definition ApproversAdd :: "Hash \<Rightarrow> Hash \<Rightarrow> Tangle \<Rightarrow> Tangle" where
  "ApproversAdd approvee approver tg =
     tg\<lparr>approversCache := (approversCache tg)(approvee := insert approver (approversCache tg approvee))\<rparr>"

definition Trigger :: "Event \<Rightarrow> Tangle \<Rightarrow> Tangle" where
  "Trigger e tg = tg\<lparr>events := events tg @ [e]\<rparr>"

subsection \<open>checkSolidity\<close>

text \<open>
  Lines 39 to 42: the trunk, then the branch when it differs from the trunk.
\<close>

definition approveeHashes :: "Transaction \<Rightarrow> Hash list" where
  "approveeHashes tx = (if Trunk tx \<noteq> Branch tx then [Trunk tx, Branch tx] else [Trunk tx])"

text \<open>
  Lines 44 to 63, the loop over the approvees; the result is \<open>isSolid\<close>. The loop stops
  (\<^verbatim>\<open>break\<close>) at the first approvee that is missing or not solid.
\<close>

fun checkApprovees :: "Hash \<Rightarrow> bool \<Rightarrow> Hash list \<Rightarrow> Tangle \<Rightarrow> bool \<times> Tangle" where
  "checkApprovees h addToApproversCache [] tg = (True, tg)"
| "checkApprovees h addToApproversCache (approveeHash # rest) tg =
     (if SolidEntryPointsContain tg approveeHash then
        checkApprovees h addToApproversCache rest tg
      else
        let tg1 = GetCachedTransaction approveeHash tg in
        if \<not> Exists tg1 approveeHash \<or> \<not> IsSolid tg1 approveeHash then
          (False,
           Release approveeHash
             (if addToApproversCache then ApproversAdd approveeHash h tg1 else tg1))
        else checkApprovees h addToApproversCache rest (Release approveeHash tg1))"

text \<open>
  \<^verbatim>\<open>checkSolidity\<close>, lines 29 to 73. The handle is named by its hash \<open>h\<close>. The callers of
  this file pass handles that exist; on a handle without a transaction
  \<^verbatim>\<open>GetTransaction()\<close> has nothing to read, which is the outcome \<open>Panic\<close>. The result is
  \<open>(solid, newlySolid)\<close> and the store after the call.
\<close>

definition checkSolidity :: "Hash \<Rightarrow> bool \<Rightarrow> Tangle \<Rightarrow> (bool \<times> bool \<times> Tangle) Outcome" where
  "checkSolidity h addToApproversCache tg =
     (case cache tg h of
        None \<Rightarrow> Panic
      | Some tx \<Rightarrow>
          let tg1 = RegisterConsumer h tg in
          if Solid tx then Returned (True, False, Release h tg1)
          else
            let (isSolid, tg2) = checkApprovees h addToApproversCache (approveeHashes tx) tg1;
                tg3 = (if isSolid then Trigger (TransactionSolid h) (SetSolid h tg2) else tg2)
            in Returned (isSolid, isSolid, Release h tg3))"

subsection \<open>Go maps used as sets, and the order of a range\<close>

text \<open>
  The working maps of a walk (\<^verbatim>\<open>map[string]struct{}\<close>) are lists of keys without
  repetition. Go does not fix the order in which \<^verbatim>\<open>range\<close> visits the keys of a map: the
  order is the parameter \<open>pick\<close>, which names the key to visit next among those left
  (a \<open>pick\<close> that answers with something else is read as the first key left). A range
  visits the keys the map holds when the range starts; a key stored while the range runs
  is visited by the next range over the map, which the enclosing loop starts.
\<close>

type_synonym Pick = "Hash list \<Rightarrow> Hash"

definition insertKey :: "Hash \<Rightarrow> Hash list \<Rightarrow> Hash list" where
  "insertKey k keys = (if k \<in> set keys then keys else keys @ [k])"

definition deleteKey :: "Hash \<Rightarrow> Hash list \<Rightarrow> Hash list" where
  "deleteKey k keys = removeAll k keys"

fun rangeOrder :: "Pick \<Rightarrow> nat \<Rightarrow> Hash list \<Rightarrow> Hash list" where
  "rangeOrder pick 0 keys = []"
| "rangeOrder pick (Suc n) keys =
     (let k = (if pick keys \<in> set keys then pick keys else hd keys)
      in k # rangeOrder pick n (removeAll k keys))"

definition rangeKeys :: "Pick \<Rightarrow> Hash list \<Rightarrow> Hash list" where
  "rangeKeys pick keys = rangeOrder pick (length keys) keys"

subsection \<open>The abort signal\<close>

text \<open>
  \<^verbatim>\<open>abortSignal\<close> is a channel that another goroutine closes. What a walk sees of it is
  the answer of each \<^verbatim>\<open>select\<close>: \<open>Some n\<close> is a channel found open by the next \<open>n\<close> polls
  and closed from then on, \<open>None\<close> a channel nobody closes during the call.
\<close>

type_synonym AbortSignal = "nat option"

fun poll :: "AbortSignal \<Rightarrow> bool \<times> AbortSignal" where
  "poll None = (False, None)"
| "poll (Some 0) = (True, Some 0)"
| "poll (Some (Suc n)) = (False, Some n)"

subsection \<open>solidQueueCheck\<close>

record WalkState =
  txsChecked :: "Hash \<rightharpoonup> bool"
  txsToTraverse :: "Hash list"
  approvers :: "Hash \<rightharpoonup> Hash list"
  entryTxs :: "Hash list"
  txsToRequest :: "Hash list"

text \<open>\<^verbatim>\<open>registerApproverOfApprovee\<close>, lines 75 to 85.\<close>

definition registerApproverOfApprovee ::
  "Hash \<Rightarrow> Hash \<Rightarrow> (Hash \<rightharpoonup> Hash list) \<Rightarrow> (Hash \<rightharpoonup> Hash list)" where
  "registerApproverOfApprovee approver approveeHash apprs =
     (let approversMap = (case apprs approveeHash of None \<Rightarrow> [] | Some m \<Rightarrow> m)
      in apprs(approveeHash \<mapsto> insertKey approver approversMap))"

text \<open>
  Lines 129 to 168: the approvees of the transaction \<open>txHash\<close> that phase 1 is expanding.
  The boolean is \<open>isEntryTx\<close>.
\<close>

fun collectApprovees ::
  "Hash \<Rightarrow> Hash list \<Rightarrow> bool \<Rightarrow> WalkState \<Rightarrow> Tangle \<Rightarrow> bool \<times> WalkState \<times> Tangle" where
  "collectApprovees txHash [] isEntryTx ws tg = (isEntryTx, ws, tg)"
| "collectApprovees txHash (approveeHash # rest) isEntryTx ws tg =
     (if SolidEntryPointsContain tg approveeHash then
        collectApprovees txHash rest isEntryTx ws tg
      else
        let ws1 = ws\<lparr>approvers := registerApproverOfApprovee txHash approveeHash (approvers ws)\<rparr>
        in (case txsChecked ws1 approveeHash of
              Some isSolid \<Rightarrow>
                collectApprovees txHash rest (if \<not> isSolid then False else isEntryTx) ws1 tg
            | None \<Rightarrow>
                (let tg1 = GetCachedTransaction approveeHash tg in
                 if \<not> Exists tg1 approveeHash then
                   collectApprovees txHash rest False
                     (ws1\<lparr>txsToRequest := insertKey approveeHash (txsToRequest ws1),
                          txsChecked := (txsChecked ws1)(approveeHash \<mapsto> False)\<rparr>)
                     (Release approveeHash tg1)
                 else
                   (let ws2 = ws1\<lparr>txsChecked := (txsChecked ws1)(approveeHash \<mapsto> IsSolid tg1 approveeHash)\<rparr>
                    in if \<not> IsSolid tg1 approveeHash then
                         collectApprovees txHash rest False
                           (ws2\<lparr>txsToTraverse := insertKey approveeHash (txsToTraverse ws2)\<rparr>)
                           (Release approveeHash tg1)
                       else collectApprovees txHash rest isEntryTx ws2 (Release approveeHash tg1)))))"

text \<open>
  Lines 108 to 175: one range over \<^verbatim>\<open>txsToTraverse\<close>, given the keys in the order of the
  range. The first component of the result is \<open>aborted\<close>.
\<close>

fun collectRange ::
  "Hash list \<Rightarrow> AbortSignal \<Rightarrow> WalkState \<Rightarrow> Tangle \<Rightarrow>
     (bool \<times> AbortSignal \<times> WalkState \<times> Tangle) Outcome" where
  "collectRange [] sig ws tg = Returned (False, sig, ws, tg)"
| "collectRange (txHash # rest) sig ws tg =
     (case poll sig of
        (True, sig1) \<Rightarrow> Returned (True, sig1, ws, tg)
      | (False, sig1) \<Rightarrow>
          (let ws1 = ws\<lparr>txsToTraverse := deleteKey txHash (txsToTraverse ws)\<rparr>;
               tg1 = GetCachedTransaction txHash tg
           in (case cache tg1 txHash of
                 None \<Rightarrow> Panic
               | Some tx \<Rightarrow>
                   (case collectApprovees txHash (approveeHashes tx) True ws1 tg1 of
                      (isEntryTx, ws2, tg2) \<Rightarrow>
                        collectRange rest sig1
                          (if isEntryTx then ws2\<lparr>entryTxs := insertKey txHash (entryTxs ws2)\<rparr> else ws2)
                          (Release txHash tg2)))))"

text \<open>
  Lines 106 to 176, phase 1: ranges over \<^verbatim>\<open>txsToTraverse\<close> as long as it is not empty.
  The code does not bound the number of ranges; \<open>None\<close> is a run out of fuel.
\<close>

fun collect ::
  "Pick \<Rightarrow> nat \<Rightarrow> AbortSignal \<Rightarrow> WalkState \<Rightarrow> Tangle \<Rightarrow>
     (bool \<times> AbortSignal \<times> WalkState \<times> Tangle) Outcome option" where
  "collect pick 0 sig ws tg = None"
| "collect pick (Suc fuel) sig ws tg =
     (if txsToTraverse ws = [] then Some (Returned (False, sig, ws, tg))
      else
        (case collectRange (rangeKeys pick (txsToTraverse ws)) sig ws tg of
           Panic \<Rightarrow> Some Panic
         | Returned (True, rest) \<Rightarrow> Some (Returned (True, rest))
         | Returned (False, sig1, ws1, tg1) \<Rightarrow> collect pick fuel sig1 ws1 tg1))"

definition IsNodeSynced :: "Tangle \<Rightarrow> bool" where
  "IsNodeSynced tg = nodeSynced tg"

definition approversOf :: "WalkState \<Rightarrow> Hash \<Rightarrow> Hash list" where
  "approversOf ws h = (case approvers ws h of None \<Rightarrow> [] | Some m \<Rightarrow> m)"

text \<open>
  Lines 200 to 230: one range over \<^verbatim>\<open>entryTxs\<close>. The result is \<open>aborted\<close>, the signal,
  \<open>newSolidTxFound\<close>, the working state and the store.
\<close>

fun propagateRange ::
  "Pick \<Rightarrow> Hash list \<Rightarrow> AbortSignal \<Rightarrow> bool \<Rightarrow> WalkState \<Rightarrow> Tangle \<Rightarrow>
     (bool \<times> AbortSignal \<times> bool \<times> WalkState \<times> Tangle) Outcome" where
  "propagateRange pick [] sig newSolidTxFound ws tg =
     Returned (False, sig, newSolidTxFound, ws, tg)"
| "propagateRange pick (entryTxHash # rest) sig newSolidTxFound ws tg =
     (case poll sig of
        (True, sig1) \<Rightarrow> Returned (True, sig1, newSolidTxFound, ws, tg)
      | (False, sig1) \<Rightarrow>
          (let tg1 = GetCachedTransaction entryTxHash tg in
           if \<not> Exists tg1 entryTxHash then Panic
           else
             (case checkSolidity entryTxHash False tg1 of
                Panic \<Rightarrow> Panic
              | Returned (solid, newlySolid, tg2) \<Rightarrow>
                  if solid then
                    (let ws1 = ws\<lparr>entryTxs :=
                                 foldl (\<lambda>keys approverTxHash. insertKey approverTxHash keys)
                                   (entryTxs ws) (rangeKeys pick (approversOf ws entryTxHash))\<rparr>;
                         tg3 = (if newlySolid \<and> IsNodeSynced tg2 then
                                  Trigger (GossipSolidifierSubmit entryTxHash)
                                    (RegisterConsumer entryTxHash tg2)
                                else tg2);
                         ws2 = ws1\<lparr>entryTxs := deleteKey entryTxHash (entryTxs ws1)\<rparr>
                     in propagateRange pick rest sig1 True ws2 (Release entryTxHash tg3))
                  else propagateRange pick rest sig1 newSolidTxFound ws (Release entryTxHash tg2))))"

text \<open>
  Lines 194 to 231, phase 2: ranges over \<^verbatim>\<open>entryTxs\<close> as long as the last range found a
  solid transaction. \<open>None\<close> is a run out of fuel.
\<close>

fun propagate ::
  "Pick \<Rightarrow> nat \<Rightarrow> AbortSignal \<Rightarrow> WalkState \<Rightarrow> Tangle \<Rightarrow>
     (bool \<times> AbortSignal \<times> WalkState \<times> Tangle) Outcome option" where
  "propagate pick 0 sig ws tg = None"
| "propagate pick (Suc fuel) sig ws tg =
     (case propagateRange pick (rangeKeys pick (entryTxs ws)) sig False ws tg of
        Panic \<Rightarrow> Some Panic
      | Returned (True, sig1, newSolidTxFound, ws1, tg1) \<Rightarrow> Some (Returned (True, sig1, ws1, tg1))
      | Returned (False, sig1, newSolidTxFound, ws1, tg1) \<Rightarrow>
          if newSolidTxFound then propagate pick fuel sig1 ws1 tg1
          else Some (Returned (False, sig1, ws1, tg1)))"

definition initialWalkState :: "Hash \<Rightarrow> WalkState" where
  "initialWalkState milestoneTail =
     \<lparr>txsChecked = Map.empty, txsToTraverse = [milestoneTail], approvers = Map.empty,
      entryTxs = [], txsToRequest = []\<rparr>"

text \<open>
  \<^verbatim>\<open>solidQueueCheck\<close>, lines 90 to 238. The result is \<open>(solid, aborted)\<close>, the signal as
  the walk leaves it and the store. The deferred \<^verbatim>\<open>milestoneTail.Release()\<close> runs on
  every return.
\<close>

definition solidQueueCheck ::
  "Pick \<Rightarrow> nat \<Rightarrow> MilestoneIndex \<Rightarrow> Hash \<Rightarrow> AbortSignal \<Rightarrow> Tangle \<Rightarrow>
     (bool \<times> bool \<times> AbortSignal \<times> Tangle) Outcome option" where
  "solidQueueCheck pick fuel milestoneIndex milestoneTail abortSignal tg =
     (case collect pick fuel abortSignal (initialWalkState milestoneTail)
             (RegisterConsumer milestoneTail tg) of
        None \<Rightarrow> None
      | Some Panic \<Rightarrow> Some Panic
      | Some (Returned (True, sig1, ws1, tg1)) \<Rightarrow>
          Some (Returned (False, True, sig1, Release milestoneTail tg1))
      | Some (Returned (False, sig1, ws1, tg1)) \<Rightarrow>
          if txsToRequest ws1 \<noteq> [] then
            Some (Returned (False, False, sig1,
              Release milestoneTail
                (Trigger (RequestMulti (rangeKeys pick (txsToRequest ws1)) milestoneIndex) tg1)))
          else if entryTxs ws1 = [] then Some Panic
          else
            (case propagate pick fuel sig1 ws1 tg1 of
               None \<Rightarrow> None
             | Some Panic \<Rightarrow> Some Panic
             | Some (Returned (True, sig2, ws2, tg2)) \<Rightarrow>
                 Some (Returned (False, True, sig2, Release milestoneTail tg2))
             | Some (Returned (False, sig2, ws2, tg2)) \<Rightarrow>
                 Some (Returned ((entryTxs ws2 = []), False, sig2, Release milestoneTail tg2))))"

subsection \<open>searchMissingMilestone\<close>

record SearchState =
  milestoneFound :: bool
  searchChecked :: "Hash list"
  searchToTraverse :: "Hash list"

definition IsMaybeMilestone :: "Tangle \<Rightarrow> Hash \<Rightarrow> bool" where
  "IsMaybeMilestone tg h = maybeMilestone tg h"

text \<open>
  Modelled from the spec: \<^verbatim>\<open>processValidMilestone\<close> lives in another file of the package.
  It hands the bundle to the milestone validator, which registers the milestone; the log
  keeps the call.
\<close>

definition processValidMilestone :: "BundleInfo \<Rightarrow> Tangle \<Rightarrow> Tangle" where
  "processValidMilestone bundle tg = Trigger (ProcessValidMilestone (GetMilestoneIndex bundle)) tg"

text \<open>
  Lines 420 to 447 for an approvee that is a tail: \<open>Returned True\<close> when the bundle is a
  milestone with an index strictly between \<open>solidMilestoneIndex\<close> and
  \<open>startMilestoneIndex\<close>, \<open>Returned False\<close> when the code falls through to line 449.
\<close>

definition milestoneInRange ::
  "MilestoneIndex \<Rightarrow> MilestoneIndex \<Rightarrow> Hash \<Rightarrow> Transaction \<Rightarrow> Tangle \<Rightarrow> (bool \<times> BundleInfo option) Outcome" where
  "milestoneInRange solidIdx startIdx approveeHash approveeTx tg =
     (if IsMaybeMilestone tg approveeHash then
        (case bundles tg (Bundle approveeTx) of
           None \<Rightarrow> Panic
         | Some bundleBucket \<Rightarrow>
             (case bundleBucket approveeHash of
                None \<Rightarrow> Panic
              | Some bundle \<Rightarrow>
                  if CheckIfMilestone bundle then
                    (if GetMilestoneIndex bundle > solidIdx \<and> GetMilestoneIndex bundle < startIdx
                     then Returned (True, Some bundle)
                     else Returned (False, None))
                  else Returned (False, None)))
      else Returned (False, None))"

text \<open>
  Lines 399 to 456: the approvees of one visited transaction. The \<^verbatim>\<open>break\<close> of line 444
  leaves this loop, and only this loop.
\<close>

fun searchApprovees ::
  "MilestoneIndex \<Rightarrow> MilestoneIndex \<Rightarrow> Hash list \<Rightarrow> SearchState \<Rightarrow> Tangle \<Rightarrow>
     (SearchState \<times> Tangle) Outcome" where
  "searchApprovees solidIdx startIdx [] ss tg = Returned (ss, tg)"
| "searchApprovees solidIdx startIdx (approveeHash # rest) ss tg =
     (if SolidEntryPointsContain tg approveeHash then searchApprovees solidIdx startIdx rest ss tg
      else if approveeHash \<in> set (searchChecked ss) then searchApprovees solidIdx startIdx rest ss tg
      else
        (let tg1 = GetCachedTransaction approveeHash tg in
         case cache tg1 approveeHash of
           None \<Rightarrow> Panic
         | Some approveeTx \<Rightarrow>
             if \<not> IsTail approveeTx then
               searchApprovees solidIdx startIdx rest ss (Release approveeHash tg1)
             else
               (case milestoneInRange solidIdx startIdx approveeHash approveeTx tg1 of
                  Panic \<Rightarrow> Panic
                | Returned (True, Some bundle) \<Rightarrow>
                    Returned (ss\<lparr>milestoneFound := True\<rparr>,
                              Release approveeHash (processValidMilestone bundle tg1))
                | Returned (_, _) \<Rightarrow>
                    searchApprovees solidIdx startIdx rest
                      (ss\<lparr>searchToTraverse := insertKey approveeHash (searchToTraverse ss),
                          searchChecked := insertKey approveeHash (searchChecked ss)\<rparr>)
                      (Release approveeHash tg1))))"

text \<open>Lines 379 to 457: one range over \<^verbatim>\<open>txsToTraverse\<close>; the boolean is \<open>aborted\<close>.\<close>

fun searchRange ::
  "MilestoneIndex \<Rightarrow> MilestoneIndex \<Rightarrow> Hash list \<Rightarrow> AbortSignal \<Rightarrow> SearchState \<Rightarrow> Tangle \<Rightarrow>
     (bool \<times> AbortSignal \<times> SearchState \<times> Tangle) Outcome" where
  "searchRange solidIdx startIdx [] sig ss tg = Returned (False, sig, ss, tg)"
| "searchRange solidIdx startIdx (txHash # rest) sig ss tg =
     (case poll sig of
        (True, sig1) \<Rightarrow> Returned (True, sig1, ss, tg)
      | (False, sig1) \<Rightarrow>
          (let ss1 = ss\<lparr>searchToTraverse := deleteKey txHash (searchToTraverse ss)\<rparr>;
               tg1 = GetCachedTransaction txHash tg
           in (case cache tg1 txHash of
                 None \<Rightarrow> Panic
               | Some tx \<Rightarrow>
                   (case searchApprovees solidIdx startIdx (approveeHashes tx) ss1
                           (Release txHash tg1) of
                      Panic \<Rightarrow> Panic
                    | Returned (ss2, tg2) \<Rightarrow> searchRange solidIdx startIdx rest sig1 ss2 tg2))))"

text \<open>
  Lines 377 to 458: at most \<open>maxSearchDepth\<close> ranges; the natural number counts the
  ranges that are left (\<open>maxSearchDepth - loopCnt\<close>).
\<close>

fun searchLoop ::
  "Pick \<Rightarrow> MilestoneIndex \<Rightarrow> MilestoneIndex \<Rightarrow> nat \<Rightarrow> AbortSignal \<Rightarrow> SearchState \<Rightarrow> Tangle \<Rightarrow>
     (bool \<times> AbortSignal \<times> SearchState \<times> Tangle) Outcome" where
  "searchLoop pick solidIdx startIdx 0 sig ss tg = Returned (False, sig, ss, tg)"
| "searchLoop pick solidIdx startIdx (Suc left) sig ss tg =
     (if searchToTraverse ss = [] then Returned (False, sig, ss, tg)
      else
        (case searchRange solidIdx startIdx (rangeKeys pick (searchToTraverse ss)) sig ss tg of
           Panic \<Rightarrow> Panic
         | Returned (True, rest) \<Rightarrow> Returned (True, rest)
         | Returned (False, sig1, ss1, tg1) \<Rightarrow> searchLoop pick solidIdx startIdx left sig1 ss1 tg1))"

text \<open>
  \<^verbatim>\<open>searchMissingMilestone\<close>, lines 362 to 462; the result is \<open>(found, aborted)\<close>, the
  signal and the store.
\<close>

definition searchMissingMilestone ::
  "Pick \<Rightarrow> MilestoneIndex \<Rightarrow> MilestoneIndex \<Rightarrow> Hash \<Rightarrow> int \<Rightarrow> AbortSignal \<Rightarrow> Tangle \<Rightarrow>
     (bool \<times> bool \<times> AbortSignal \<times> Tangle) Outcome" where
  "searchMissingMilestone pick solidIdx startIdx milestoneTail maxSearchDepth abortSignal tg =
     (case searchLoop pick solidIdx startIdx (nat maxSearchDepth) abortSignal
             \<lparr>milestoneFound = False, searchChecked = [], searchToTraverse = [milestoneTail]\<rparr>
             (RegisterConsumer milestoneTail tg) of
        Panic \<Rightarrow> Panic
      | Returned (True, sig1, ss1, tg1) \<Rightarrow> Returned (False, True, sig1, Release milestoneTail tg1)
      | Returned (False, sig1, ss1, tg1) \<Rightarrow>
          Returned (milestoneFound ss1, False, sig1, Release milestoneTail tg1))"

subsection \<open>solidifyMilestone\<close>

definition maxMissingMilestoneSearchDepth :: int where
  "maxMissingMilestoneSearchDepth = 120000"

text \<open>\<^verbatim>\<open>abortMilestoneSolidification\<close>, lines 240 to 247.\<close>

definition abortMilestoneSolidification :: "Tangle \<Rightarrow> Tangle" where
  "abortMilestoneSolidification tg =
     (if signalChanMilestoneStopSolidification tg then
        (Trigger CloseSignalChan tg)\<lparr>signalChanMilestoneStopSolidification := False\<rparr>
      else tg)"

text \<open>\<^verbatim>\<open>setSolidifierMilestoneIndex\<close>, lines 464 to 468.\<close>

definition setSolidifierMilestoneIndex :: "MilestoneIndex \<Rightarrow> Tangle \<Rightarrow> Tangle" where
  "setSolidifierMilestoneIndex index tg = tg\<lparr>solidifierMilestoneIndex := index\<rparr>"

text \<open>\<^verbatim>\<open>GetSolidifierMilestoneIndex\<close>, lines 470 to 474.\<close>

definition GetSolidifierMilestoneIndex :: "Tangle \<Rightarrow> MilestoneIndex" where
  "GetSolidifierMilestoneIndex tg = solidifierMilestoneIndex tg"

text \<open>
  Modelled from the spec: \<^verbatim>\<open>tangle.FindClosestNextMilestone\<close> is not part of the file. It
  answers with the registered milestone of the smallest index above the given one, or with
  none.
\<close>

fun closestNext :: "MilestoneIndex \<Rightarrow> Milestone list \<Rightarrow> Milestone option \<Rightarrow> Milestone option" where
  "closestNext index [] best = best"
| "closestNext index (m # ms) best =
     closestNext index ms
       (if msIndex m > index \<and> (case best of None \<Rightarrow> True | Some b \<Rightarrow> msIndex m < msIndex b)
        then Some m else best)"

definition FindClosestNextMilestone :: "Tangle \<Rightarrow> MilestoneIndex \<Rightarrow> Milestone option" where
  "FindClosestNextMilestone tg index = closestNext index (milestones tg) None"

text \<open>
  Modelled from the spec: \<^verbatim>\<open>GetTail\<close> of a milestone bundle is not part of the file. It
  hands out a cached handle of the tail transaction, an acquisition that the caller gives
  back with \<^verbatim>\<open>Release\<close>.
\<close>

definition GetTail :: "Milestone \<Rightarrow> Tangle \<Rightarrow> Tangle" where
  "GetTail ms tg = GetCachedTransaction (msTail ms) tg"

text \<open>
  Modelled from the spec: \<^verbatim>\<open>confirmMilestone\<close>, \<^verbatim>\<open>tangle.SetSolidMilestone\<close> and
  \<^verbatim>\<open>tangle.StoreMilestoneInDatabase\<close> are not part of the file. The confirmation and the
  persistence are calls in the log; the solid milestone becomes the new confirmed tip.
\<close>

definition confirmMilestone :: "MilestoneIndex \<Rightarrow> Hash \<Rightarrow> Tangle \<Rightarrow> Tangle" where
  "confirmMilestone index milestoneTail tg = Trigger (ConfirmMilestone index milestoneTail) tg"

definition SetSolidMilestone :: "Milestone \<Rightarrow> Tangle \<Rightarrow> Tangle" where
  "SetSolidMilestone ms tg = tg\<lparr>solidMilestoneIndex := msIndex ms\<rparr>"

text \<open>
  Lines 320 to 344, the milestone is solid and \<open>currentSolidIndex + 1\<close> is below its
  index. A search that neither finds a milestone nor is aborted ends in \<^verbatim>\<open>log.Panicf\<close>.
\<close>

definition solidifyGapped ::
  "Pick \<Rightarrow> MilestoneIndex \<Rightarrow> Milestone \<Rightarrow> AbortSignal \<Rightarrow> Tangle \<Rightarrow> Tangle Outcome" where
  "solidifyGapped pick currentSolidIndex milestoneToSolidify abortSignal tg =
     (case (if FindClosestNextMilestone tg currentSolidIndex = Some milestoneToSolidify then
              (case searchMissingMilestone pick currentSolidIndex (msIndex milestoneToSolidify)
                      (msTail milestoneToSolidify) maxMissingMilestoneSearchDepth abortSignal tg of
                 Panic \<Rightarrow> Panic
               | Returned (found, aborted, sig1, tg1) \<Rightarrow>
                   if \<not> found \<and> \<not> aborted then Panic else Returned tg1)
            else Returned tg) of
        Panic \<Rightarrow> Panic
      | Returned tg2 \<Rightarrow>
          Returned (Trigger SolidifierUnlock
                      (Trigger (TrySubmit 0) (setSolidifierMilestoneIndex 0 tg2))))"

text \<open>Lines 346 to 359, the milestone is solid and next in line.\<close>

definition solidifyContiguous :: "Milestone \<Rightarrow> Tangle \<Rightarrow> Tangle" where
  "solidifyContiguous milestoneToSolidify tg =
     (let tg1 = Trigger WriteLockLedger tg;
          tg2 = confirmMilestone (msIndex milestoneToSolidify) (msTail milestoneToSolidify) tg1;
          tg3 = Release (msTail milestoneToSolidify) tg2;
          tg4 = SetSolidMilestone milestoneToSolidify tg3;
          tg5 = Trigger (StoreMilestoneInDatabase (msIndex milestoneToSolidify)) tg4;
          tg6 = Trigger (SolidMilestoneChanged (msIndex milestoneToSolidify)) tg5;
          tg7 = setSolidifierMilestoneIndex 0 tg6;
          tg8 = Trigger (TrySubmit 0) tg7
      in Trigger SolidifierUnlock (Trigger WriteUnlockLedger tg8))"

text \<open>
  \<^verbatim>\<open>solidifyMilestone\<close>, lines 250 to 360. \<open>abortSignal\<close> is what the walk will see of the
  channel that line 301 creates. Taking and giving back \<^verbatim>\<open>solidifierLock\<close> and the ledger
  lock are calls in the log.
\<close>

definition solidifyMilestone ::
  "Pick \<Rightarrow> nat \<Rightarrow> AbortSignal \<Rightarrow> MilestoneIndex \<Rightarrow> Tangle \<Rightarrow> Tangle Outcome option" where
  "solidifyMilestone pick fuel abortSignal msIndexEmptiedQueue tg =
     (if solidifierMilestoneIndex tg \<noteq> 0 \<and> msIndexEmptiedQueue \<noteq> 0
         \<and> solidifierMilestoneIndex tg < msIndexEmptiedQueue
      then Some (Returned tg)
      else
        (let tg1 = Trigger SolidifierLock (abortMilestoneSolidification tg);
             currentSolidIndex = solidMilestoneIndex tg1;
             latestIndex = latestMilestoneIndex tg1
         in if currentSolidIndex = latestIndex \<and> latestIndex \<noteq> 0 then
              Some (Returned (Trigger SolidifierUnlock tg1))
            else
              (case FindClosestNextMilestone tg1 currentSolidIndex of
                 None \<Rightarrow> Some (Returned (Trigger SolidifierUnlock tg1))
               | Some milestoneToSolidify \<Rightarrow>
                   (let milestoneIndexToSolidify = msIndex milestoneToSolidify;
                        tg2 = (setSolidifierMilestoneIndex milestoneIndexToSolidify tg1)
                                \<lparr>signalChanMilestoneStopSolidification := True\<rparr>;
                        milestoneToSolidifyTail = msTail milestoneToSolidify;
                        tg3 = GetTail milestoneToSolidify tg2
                    in (case solidQueueCheck pick fuel milestoneIndexToSolidify
                               milestoneToSolidifyTail abortSignal tg3 of
                          None \<Rightarrow> None
                        | Some Panic \<Rightarrow> Some Panic
                        | Some (Returned (becameSolid, aborted, sig1, tg4)) \<Rightarrow>
                            if \<not> becameSolid then
                              Some (Returned (Trigger SolidifierUnlock
                                (Release milestoneToSolidifyTail
                                   (setSolidifierMilestoneIndex 0 tg4))))
                            else if currentSolidIndex + 1 < milestoneIndexToSolidify then
                              Some (solidifyGapped pick currentSolidIndex milestoneToSolidify sig1 tg4)
                            else Some (Returned (solidifyContiguous milestoneToSolidify tg4)))))))"

subsection \<open>Notions of the specification\<close>

text \<open>
  A parent counts as solid for its approver when it is a solid entry point, or when the
  cache holds it and its solid flag is set.
\<close>

definition approveeSolid :: "Tangle \<Rightarrow> Hash \<Rightarrow> bool" where
  "approveeSolid tg a = (SolidEntryPointsContain tg a \<or> (Exists tg a \<and> IsSolid tg a))"

subsection \<open>Example stores\<close>

definition mkTx :: "Hash \<Rightarrow> Hash \<Rightarrow> bool \<Rightarrow> bool \<Rightarrow> Transaction" where
  "mkTx t b tail s = \<lparr>Trunk = t, Branch = b, IsTail = tail, Bundle = ''BUNDLE'', Solid = s\<rparr>"

definition mkTangle :: "(Hash \<rightharpoonup> Transaction) \<Rightarrow> Tangle" where
  "mkTangle c =
     \<lparr>cache = c, solidEntryPoints = {''E''}, consumers = (\<lambda>_. 0), approversCache = (\<lambda>_. {}),
      nodeSynced = False, solidMilestoneIndex = 0, latestMilestoneIndex = 0, milestones = [],
      maybeMilestone = (\<lambda>_. False), bundles = (\<lambda>_. None), solidifierMilestoneIndex = 0,
      signalChanMilestoneStopSolidification = False, events = []\<rparr>"

text \<open>The tail \<open>T\<close> approves \<open>A\<close> and the entry point \<open>E\<close>; \<open>A\<close> approves \<open>E\<close> only.\<close>

definition tangleTA :: Tangle where
  "tangleTA = mkTangle [''T'' \<mapsto> mkTx ''A'' ''E'' True False, ''A'' \<mapsto> mkTx ''E'' ''E'' True False]"

text \<open>
  Two milestones, of index 4 and 5, behind the tail \<open>T\<close>: \<open>T\<close> approves \<open>A\<close> and \<open>B\<close>,
  \<open>A\<close> approves the tail \<open>M4\<close> of the first and \<open>B\<close> the tail \<open>M5\<close> of the second.
\<close>

definition milestoneBucket :: "Hash \<rightharpoonup> BundleInfo" where
  "milestoneBucket =
     [''M4'' \<mapsto> \<lparr>CheckIfMilestone = True, GetMilestoneIndex = 4\<rparr>,
      ''M5'' \<mapsto> \<lparr>CheckIfMilestone = True, GetMilestoneIndex = 5\<rparr>]"




text \<open>
  The store without the three parts a walk works on: the transactions, the reference
  counts and the log. What is left holds the confirmed and the latest milestone index,
  the registered milestones and the variables of the solidifier.
\<close>

definition ledgerPart :: "Tangle \<Rightarrow> Tangle" where
  "ledgerPart tg = tg\<lparr>cache := Map.empty, consumers := (\<lambda>_. 0), events := []\<rparr>"

text \<open>
  What phase 2 of a walk may do to the store between \<open>tg\<close> and \<open>tg'\<close>: it appends
  \<open>TransactionSolid\<close> events and submissions to the future-cone pool, it sets the solid
  flag of transactions (each with its \<open>TransactionSolid\<close> event) and it moves reference
  counts. Everything else stays.
\<close>

definition walkExtends :: "Tangle \<Rightarrow> Tangle \<Rightarrow> bool" where
  "walkExtends tg tg' =
     (ledgerPart tg' = ledgerPart tg \<and>
      (\<exists>es. events tg' = events tg @ es \<and>
         (\<forall>e\<in>set es. \<exists>h. e = TransactionSolid h \<or> e = GossipSolidifierSubmit h) \<and>
         (\<forall>h. cache tg' h = cache tg h \<or>
              (\<exists>tx. cache tg h = Some tx \<and> \<not> Solid tx \<and>
                    cache tg' h = Some (tx\<lparr>Solid := True\<rparr>) \<and> TransactionSolid h \<in> set es))))"


text \<open>
  The approvers recorded by a walk all lie in \<open>S\<close>, none of them twice.
\<close>

definition approversWithin :: "WalkState \<Rightarrow> Hash set \<Rightarrow> bool" where
  "approversWithin ws S = (\<forall>x. set (approversOf ws x) \<subseteq> S \<and> distinct (approversOf ws x))"

text \<open>The store of \<open>tangleTA\<close> after a walk has made \<open>A\<close> and \<open>T\<close> solid.\<close>

definition tangleSolid :: Tangle where
  "tangleSolid = mkTangle [''T'' \<mapsto> mkTx ''A'' ''E'' True True, ''A'' \<mapsto> mkTx ''E'' ''E'' True True]"

text \<open>
  Confirmed index 3, and the only registered milestone has index 6: its tail \<open>M6\<close>
  approves \<open>M4\<close>, the tail of a milestone of index 4 that is not registered yet.
\<close>

definition tangleGapped :: Tangle where
  "tangleGapped =
     (mkTangle [''M6'' \<mapsto> mkTx ''M4'' ''E'' True False, ''M4'' \<mapsto> mkTx ''E'' ''E'' True False])
       \<lparr>solidMilestoneIndex := 3, latestMilestoneIndex := 6,
        milestones := [\<lparr>msIndex = 6, msTail = ''M6''\<rparr>],
        maybeMilestone := (\<lambda>h. h = ''M4''),
        bundles := (\<lambda>b. if b = ''BUNDLE'' then Some milestoneBucket else None)\<rparr>"


text \<open>The log of \<open>tg'\<close> is the log of \<open>tg\<close> with further calls after it.\<close>

definition eventsExtend :: "Tangle \<Rightarrow> Tangle \<Rightarrow> bool" where
  "eventsExtend tg tg' = (\<exists>es. events tg' = events tg @ es)"

text \<open>
  The test of line 270: an attempt is running, the caller names an index, and the running
  attempt is for a smaller index than the caller's, that is for an older milestone.
\<close>

definition olderAttemptRunning :: "Tangle \<Rightarrow> MilestoneIndex \<Rightarrow> bool" where
  "olderAttemptRunning tg msIndexEmptiedQueue =
     (solidifierMilestoneIndex tg \<noteq> 0 \<and> msIndexEmptiedQueue \<noteq> 0 \<and>
      solidifierMilestoneIndex tg < msIndexEmptiedQueue)"

text \<open>
  The ancestors of the milestone tail: the tail itself, and every approvee of an ancestor
  that the cache holds, solid entry points left out (the traversal never goes past them).
\<close>

inductive reachable :: "Tangle \<Rightarrow> Hash \<Rightarrow> Hash \<Rightarrow> bool" for tg :: Tangle and milestoneTail :: Hash where
  reachable_tail: "reachable tg milestoneTail milestoneTail"
| reachable_approvee:
    "reachable tg milestoneTail h \<Longrightarrow> cache tg h = Some tx \<Longrightarrow> a \<in> set (approveeHashes tx) \<Longrightarrow>
     \<not> SolidEntryPointsContain tg a \<Longrightarrow> reachable tg milestoneTail a"

text \<open>
  The transactions phase 1 expands: the tail, and every approvee of an expanded
  transaction that is in the cache and not solid.
\<close>

inductive traversed :: "Tangle \<Rightarrow> Hash \<Rightarrow> Hash \<Rightarrow> bool" for tg :: Tangle and milestoneTail :: Hash where
  traversed_tail: "traversed tg milestoneTail milestoneTail"
| traversed_approvee:
    "traversed tg milestoneTail h \<Longrightarrow> cache tg h = Some tx \<Longrightarrow> a \<in> set (approveeHashes tx) \<Longrightarrow>
     \<not> SolidEntryPointsContain tg a \<Longrightarrow> cache tg a = Some atx \<Longrightarrow> \<not> Solid atx \<Longrightarrow>
     traversed tg milestoneTail a"

text \<open>
  The invariant of the solid flag (claim C7): a transaction that is marked solid has no
  parent that is missing or not solid.
\<close>

definition solidClosed :: "Tangle \<Rightarrow> bool" where
  "solidClosed tg =
     (\<forall>h tx. cache tg h = Some tx \<and> Solid tx \<longrightarrow>
        approveeSolid tg (Trunk tx) \<and> approveeSolid tg (Branch tx))"





text \<open>
  The approvees in \<open>as\<close> that the loop of lines 129 to 168 looks up in the cache: not a
  solid entry point and not checked before.
\<close>

definition newlyChecked :: "Tangle \<Rightarrow> WalkState \<Rightarrow> Hash list \<Rightarrow> Hash set" where
  "newlyChecked tg ws as = {a \<in> set as. \<not> SolidEntryPointsContain tg a \<and> txsChecked ws a = None}"


text \<open>The edges of the tangle that the cache knows: each transaction points to its approvees.\<close>

definition approveeEdges :: "Tangle \<Rightarrow> (Hash \<times> Hash) set" where
  "approveeEdges tg = {(h, a). \<exists>tx. cache tg h = Some tx \<and> a \<in> set (approveeHashes tx)}"


text \<open>
  What phase 1 keeps true of \<^verbatim>\<open>approvers\<close> and \<^verbatim>\<open>entryTxs\<close>: no key twice, and every
  recorded approver of \<open>x\<close> is a transaction of the cache that has \<open>x\<close> as an approvee.
\<close>

definition approversSound :: "Tangle \<Rightarrow> WalkState \<Rightarrow> bool" where
  "approversSound tg ws =
     (distinct (entryTxs ws) \<and> (\<forall>x. distinct (approversOf ws x)) \<and>
      (\<forall>x y. y \<in> set (approversOf ws x) \<longrightarrow> (y, x) \<in> approveeEdges tg))"


section \<open>Properties\<close>

subsection \<open>Handles and fields\<close>

lemma Release_GetCached [simp]: "Release a (GetCachedTransaction a tg) = tg"
  by (simp add: Release_def GetCachedTransaction_def RegisterConsumer_def)

lemma Release_Register [simp]: "Release a (RegisterConsumer a tg) = tg"
  by (simp add: Release_def RegisterConsumer_def)

lemma GetCached_fields [simp]:
  "cache (GetCachedTransaction a tg) = cache tg"
  "solidEntryPoints (GetCachedTransaction a tg) = solidEntryPoints tg"
  "events (GetCachedTransaction a tg) = events tg"
  by (simp_all add: GetCachedTransaction_def RegisterConsumer_def)

lemma Register_fields [simp]:
  "cache (RegisterConsumer a tg) = cache tg"
  "solidEntryPoints (RegisterConsumer a tg) = solidEntryPoints tg"
  "events (RegisterConsumer a tg) = events tg"
  by (simp_all add: RegisterConsumer_def)

lemma Exists_GetCached [simp]: "Exists (GetCachedTransaction a tg) b = Exists tg b"
  by (simp add: Exists_def)

lemma IsSolid_GetCached [simp]: "IsSolid (GetCachedTransaction a tg) b = IsSolid tg b"
  by (simp add: IsSolid_def)

lemma SEP_GetCached [simp]:
  "SolidEntryPointsContain (GetCachedTransaction a tg) b = SolidEntryPointsContain tg b"
  by (simp add: SolidEntryPointsContain_def)

lemma approveeSolid_Register [simp]: "approveeSolid (RegisterConsumer h tg) a = approveeSolid tg a"
  by (simp add: approveeSolid_def SolidEntryPointsContain_def Exists_def IsSolid_def)

lemma approveeSolid_GetCached [simp]:
  "approveeSolid (GetCachedTransaction h tg) a = approveeSolid tg a"
  by (simp add: GetCachedTransaction_def)

lemma approveeSolid_ApproversAdd [simp]: "approveeSolid (ApproversAdd b x tg) a = approveeSolid tg a"
  by (simp add: approveeSolid_def ApproversAdd_def SolidEntryPointsContain_def Exists_def IsSolid_def)

lemma all_approvees:
  "(\<forall>a\<in>set (approveeHashes tx). P a) = (P (Trunk tx) \<and> P (Branch tx))"
  by (auto simp: approveeHashes_def)

subsection \<open>checkSolidity\<close>

lemma checkApprovees_fst:
  "fst (checkApprovees h add as tg) = (\<forall>a\<in>set as. approveeSolid tg a)"
  by (induction as arbitrary: tg) (auto simp: approveeSolid_def Let_def)

lemma checkApprovees_snd_True:
  "fst (checkApprovees h add as tg) \<Longrightarrow> snd (checkApprovees h add as tg) = tg"
  by (induction as arbitrary: tg) (auto simp: Let_def split: if_splits)

lemma checkApprovees_snd_noadd: "snd (checkApprovees h False as tg) = tg"
  by (induction as arbitrary: tg) (auto simp: Let_def split: if_splits)

lemma Release_ApproversAdd_GetCached:
  "Release a (ApproversAdd a h (GetCachedTransaction a tg)) = ApproversAdd a h tg"
  by (simp add: Release_def ApproversAdd_def GetCachedTransaction_def RegisterConsumer_def)

lemma checkApprovees_first_bad:
  "\<not> approveeSolid tg a \<Longrightarrow>
     checkApprovees h add (a # rest) tg = (False, if add then ApproversAdd a h tg else tg)"
  by (auto simp: approveeSolid_def Let_def Release_ApproversAdd_GetCached)

lemma checkApprovees_skip_good:
  "approveeSolid tg a \<Longrightarrow> checkApprovees h add (a # rest) tg = checkApprovees h add rest tg"
  by (auto simp: approveeSolid_def Let_def)

lemma Release_ApproversAdd_Register:
  "Release h (ApproversAdd a x (RegisterConsumer h tg)) = ApproversAdd a x tg"
  by (simp add: Release_def ApproversAdd_def RegisterConsumer_def)

lemma checkSolidity_solid:
  "cache tg h = Some tx \<Longrightarrow> Solid tx \<Longrightarrow> checkSolidity h add tg = Returned (True, False, tg)"
  by (simp add: checkSolidity_def)

lemma checkSolidity_unfold:
  "cache tg h = Some tx \<Longrightarrow> \<not> Solid tx \<Longrightarrow>
   checkApprovees h add (approveeHashes tx) (RegisterConsumer h tg) = (b, tg2) \<Longrightarrow>
   checkSolidity h add tg =
     Returned (b, b, Release h (if b then Trigger (TransactionSolid h) (SetSolid h tg2) else tg2))"
  by (simp add: checkSolidity_def)

lemma Release_Trigger_SetSolid_Register:
  "cache tg h = Some tx \<Longrightarrow>
   Release h (Trigger e (SetSolid h (RegisterConsumer h tg))) =
     tg\<lparr>cache := (cache tg)(h \<mapsto> tx\<lparr>Solid := True\<rparr>), events := events tg @ [e]\<rparr>"
  by (simp add: Trigger_def SetSolid_def Release_def RegisterConsumer_def)

lemma checkSolidity_newly:
  assumes c: "cache tg h = Some tx" and n: "\<not> Solid tx"
    and t: "approveeSolid tg (Trunk tx)"
    and b: "Trunk tx \<noteq> Branch tx \<longrightarrow> approveeSolid tg (Branch tx)"
  shows "checkSolidity h add tg =
          Returned (True, True,
            tg\<lparr>cache := (cache tg)(h \<mapsto> tx\<lparr>Solid := True\<rparr>),
               events := events tg @ [TransactionSolid h]\<rparr>)"
proof -
  let ?tg1 = "RegisterConsumer h tg"
  have "\<forall>a\<in>set (approveeHashes tx). approveeSolid ?tg1 a"
    using t b by (auto simp: approveeHashes_def)
  then have f: "fst (checkApprovees h add (approveeHashes tx) ?tg1)"
    by (simp add: checkApprovees_fst)
  then have s: "snd (checkApprovees h add (approveeHashes tx) ?tg1) = ?tg1"
    by (rule checkApprovees_snd_True)
  have r: "checkApprovees h add (approveeHashes tx) ?tg1 = (True, ?tg1)"
    using f s by (simp add: prod_eq_iff)
  show ?thesis
    using checkSolidity_unfold [OF c n r] Release_Trigger_SetSolid_Register [OF c] by simp
qed

lemma checkSolidity_fails:
  assumes c: "cache tg h = Some tx" and n: "\<not> Solid tx"
    and t: "\<not> (approveeSolid tg (Trunk tx) \<and>
              (Trunk tx \<noteq> Branch tx \<longrightarrow> approveeSolid tg (Branch tx)))"
  shows "checkSolidity h add tg =
          Returned (False, False,
            if add then
              ApproversAdd (if approveeSolid tg (Trunk tx) then Branch tx else Trunk tx) h tg
            else tg)"
proof -
  let ?tg1 = "RegisterConsumer h tg"
  let ?bad = "if approveeSolid tg (Trunk tx) then Branch tx else Trunk tx"
  have r: "checkApprovees h add (approveeHashes tx) ?tg1 =
             (False, if add then ApproversAdd ?bad h ?tg1 else ?tg1)"
  proof (cases "approveeSolid tg (Trunk tx)")
    case False
    then have nb: "\<not> approveeSolid ?tg1 (Trunk tx)" by simp
    have "\<exists>rest. approveeHashes tx = Trunk tx # rest"
      by (simp add: approveeHashes_def)
    then obtain rest where e: "approveeHashes tx = Trunk tx # rest" ..
    have "checkApprovees h add (approveeHashes tx) ?tg1 =
            (False, if add then ApproversAdd (Trunk tx) h ?tg1 else ?tg1)"
      unfolding e by (rule checkApprovees_first_bad [OF nb])
    moreover have "?bad = Trunk tx" using False by simp
    ultimately show ?thesis by (simp only:)
  next
    case True
    with t have d: "Trunk tx \<noteq> Branch tx" and nb: "\<not> approveeSolid tg (Branch tx)" by auto
    from True have g: "approveeSolid ?tg1 (Trunk tx)" by simp
    from nb have nb1: "\<not> approveeSolid ?tg1 (Branch tx)" by simp
    have e: "approveeHashes tx = [Trunk tx, Branch tx]" using d by (simp add: approveeHashes_def)
    have "checkApprovees h add (approveeHashes tx) ?tg1 =
            checkApprovees h add [Branch tx] ?tg1"
      unfolding e by (rule checkApprovees_skip_good [OF g])
    also have "\<dots> = (False, if add then ApproversAdd (Branch tx) h ?tg1 else ?tg1)"
      by (rule checkApprovees_first_bad [OF nb1])
    finally have "checkApprovees h add (approveeHashes tx) ?tg1 =
            (False, if add then ApproversAdd (Branch tx) h ?tg1 else ?tg1)" .
    moreover have "?bad = Branch tx" using True by simp
    ultimately show ?thesis by (simp only:)
  qed
  show ?thesis
    using checkSolidity_unfold [OF c n r]
    by (simp add: Release_ApproversAdd_Register)
qed

text \<open>
  Claim C3. For a handle \<open>h\<close> whose transaction \<open>tx\<close> the cache holds, \<^verbatim>\<open>checkSolidity\<close>
  returns \<open>(true, false)\<close> and leaves the store as it was when \<open>tx\<close> is already solid.
  Otherwise it looks at the trunk and, only when it differs from the trunk, at the branch,
  passing over solid entry points: when each of them is an entry point or is in the cache
  and solid, it sets the solid flag of \<open>tx\<close>, emits \<open>TransactionSolid\<close> and returns
  \<open>(true, true)\<close>; in all other cases it returns \<open>(false, false)\<close>, the flags and the
  events untouched (with \<open>addToApproversCache\<close> the first failing approvee gets \<open>h\<close> as an
  approver).
\<close>

theorem checkSolidity_contract:
  "cache tg h = Some tx \<Longrightarrow>
     (Solid tx \<longrightarrow> checkSolidity h add tg = Returned (True, False, tg)) \<and>
     (\<not> Solid tx \<and> approveeSolid tg (Trunk tx) \<and>
        (Trunk tx \<noteq> Branch tx \<longrightarrow> approveeSolid tg (Branch tx)) \<longrightarrow>
        checkSolidity h add tg =
          Returned (True, True,
            tg\<lparr>cache := (cache tg)(h \<mapsto> tx\<lparr>Solid := True\<rparr>),
               events := events tg @ [TransactionSolid h]\<rparr>)) \<and>
     (\<not> Solid tx \<and> \<not> (approveeSolid tg (Trunk tx) \<and>
        (Trunk tx \<noteq> Branch tx \<longrightarrow> approveeSolid tg (Branch tx))) \<longrightarrow>
        checkSolidity h add tg =
          Returned (False, False,
            if add then
              ApproversAdd (if approveeSolid tg (Trunk tx) then Branch tx else Trunk tx) h tg
            else tg))"
  using checkSolidity_solid [of tg h tx add] checkSolidity_newly [of tg h tx add]
    checkSolidity_fails [of tg h tx add]
  by blast

lemmas example_defs = tangleTA_def mkTangle_def mkTx_def approveeSolid_def
  SolidEntryPointsContain_def Exists_def IsSolid_def

theorem checkSolidity_contract_witness:
  "checkSolidity ''A'' False tangleTA =
     Returned (True, True,
       tangleTA\<lparr>cache := (cache tangleTA)(''A'' \<mapsto> mkTx ''E'' ''E'' True True),
                events := [TransactionSolid ''A'']\<rparr>)
   \<and> checkSolidity ''T'' False tangleTA = Returned (False, False, tangleTA)"
  using checkSolidity_contract [of tangleTA "''A''" "mkTx ''E'' ''E'' True False" False]
    checkSolidity_contract [of tangleTA "''T''" "mkTx ''A'' ''E'' True False" False]
  by (simp add: example_defs)

text \<open>
  Claim C7. A call of \<^verbatim>\<open>checkSolidity\<close>, the only place of the file that sets a solid
  flag, turns the flag of a transaction \<open>x\<close> from unset to set only for \<open>x = h\<close>, the
  transaction it was called for, and only when in the store of that moment the trunk and
  the branch of \<open>h\<close> are each a solid entry point or in the cache and already solid.
\<close>

theorem checkSolidity_marks_only_with_solid_parents:
  "checkSolidity h add tg = Returned (s, n, tg') \<Longrightarrow> IsSolid tg' x \<Longrightarrow> \<not> IsSolid tg x \<Longrightarrow>
     x = h \<and> (\<exists>tx. cache tg h = Some tx \<and> \<not> Solid tx \<and>
                  approveeSolid tg (Trunk tx) \<and> approveeSolid tg (Branch tx))"
proof -
  assume r: "checkSolidity h add tg = Returned (s, n, tg')"
     and a: "IsSolid tg' x" and b: "\<not> IsSolid tg x"
  from r obtain tx where c: "cache tg h = Some tx"
    by (auto simp: checkSolidity_def split: option.splits)
  show ?thesis
  proof (cases "Solid tx")
    case True
    with checkSolidity_solid [OF c, of add] r have "tg' = tg" by simp
    with a b show ?thesis by simp
  next
    case False
    show ?thesis
    proof (cases "approveeSolid tg (Trunk tx) \<and>
                  (Trunk tx \<noteq> Branch tx \<longrightarrow> approveeSolid tg (Branch tx))")
      case True
      with checkSolidity_newly [OF c False, of add] r
      have "tg' = tg\<lparr>cache := (cache tg)(h \<mapsto> tx\<lparr>Solid := True\<rparr>),
               events := events tg @ [TransactionSolid h]\<rparr>" by simp
      with a b have "x = h" by (auto simp: IsSolid_def split: if_splits)
      with c False True show ?thesis by (cases "Trunk tx = Branch tx") auto
    next
      case F: False
      with checkSolidity_fails [OF c False, of add] r
      have "cache tg' = cache tg" by (auto simp: ApproversAdd_def split: if_splits)
      with a b show ?thesis by (simp add: IsSolid_def)
    qed
  qed
qed

theorem checkSolidity_marks_only_with_solid_parents_witness:
  "IsSolid (tangleTA\<lparr>cache := (cache tangleTA)(''A'' \<mapsto> mkTx ''E'' ''E'' True True),
                      events := [TransactionSolid ''A'']\<rparr>) ''A''
   \<and> \<not> IsSolid tangleTA ''A''
   \<and> (\<exists>tx. cache tangleTA ''A'' = Some tx \<and> \<not> Solid tx \<and>
          approveeSolid tangleTA (Trunk tx) \<and> approveeSolid tangleTA (Branch tx))"
proof -
  let ?tg' = "tangleTA\<lparr>cache := (cache tangleTA)(''A'' \<mapsto> mkTx ''E'' ''E'' True True),
                      events := [TransactionSolid ''A'']\<rparr>"
  have r: "checkSolidity ''A'' False tangleTA = Returned (True, True, ?tg')"
    using checkSolidity_newly [of tangleTA "''A''" "mkTx ''E'' ''E'' True False" False]
    by (simp add: example_defs)
  have a: "IsSolid ?tg' ''A''" by (simp add: example_defs)
  have b: "\<not> IsSolid tangleTA ''A''" by (simp add: example_defs)
  from checkSolidity_marks_only_with_solid_parents [OF r a b] a b show ?thesis by blast
qed

subsection \<open>searchMissingMilestone\<close>

lemma milestoneInRange_GetCached [simp]:
  "milestoneInRange s t a atx (GetCachedTransaction b tg) = milestoneInRange s t a atx tg"
  by (simp add: milestoneInRange_def IsMaybeMilestone_def GetCachedTransaction_def
      RegisterConsumer_def)



lemma searchLoop_numeral:
  "searchLoop pick solidIdx startIdx (numeral k) sig ss tg =
     (if searchToTraverse ss = [] then Returned (False, sig, ss, tg)
      else
        (case searchRange solidIdx startIdx (rangeKeys pick (searchToTraverse ss)) sig ss tg of
           Panic \<Rightarrow> Panic
         | Returned (True, rest) \<Rightarrow> Returned (True, rest)
         | Returned (False, sig1, ss1, tg1) \<Rightarrow>
             searchLoop pick solidIdx startIdx (pred_numeral k) sig1 ss1 tg1))"
  by (simp add: numeral_eq_Suc)








subsection \<open>Phase 1 of the walk leaves the store as it is\<close>

lemma collectApprovees_tangle: "snd (snd (collectApprovees h as e ws tg)) = tg"
  by (induction as arbitrary: e ws) (auto simp: Let_def split: option.splits)

lemma collectApprovees_tangleD:
  "collectApprovees h as e ws tg = (e', ws', tg') \<Longrightarrow> tg' = tg"
  using collectApprovees_tangle [of h as e ws tg] by simp

lemma poll_cases:
  obtains (abort) sig1 where "poll sig = (True, sig1)" | (go) sig1 where "poll sig = (False, sig1)"
  by (cases "poll sig") (case_tac a, auto)

lemma collectRange_tangle:
  "collectRange keys sig ws tg = Returned (ab, sig', ws', tg') \<Longrightarrow> tg' = tg"
proof (induction keys arbitrary: sig ws)
  case Nil
  then show ?case by simp
next
  case (Cons k keys)
  show ?case
  proof (cases sig rule: poll_cases)
    case (abort sig1)
    with Cons.prems show ?thesis by simp
  next
    case (go sig1)
    from Cons.prems go obtain tx where c: "cache tg k = Some tx"
      by (cases "cache tg k") (simp_all add: Let_def)
    let ?ws1 = "ws\<lparr>txsToTraverse := deleteKey k (txsToTraverse ws)\<rparr>"
    obtain e ws2 tg2 where ca: "collectApprovees k (approveeHashes tx) True ?ws1 (GetCachedTransaction k tg) = (e, ws2, tg2)"
      by (metis prod_cases3)
    then have tg2: "tg2 = GetCachedTransaction k tg" by (rule collectApprovees_tangleD)
    from Cons.prems go c ca tg2
    have "collectRange keys sig1 (if e then ws2\<lparr>entryTxs := insertKey k (entryTxs ws2)\<rparr> else ws2) tg
            = Returned (ab, sig', ws', tg')"
      by (simp add: Let_def)
    then show ?thesis by (rule Cons.IH)
  qed
qed

lemma collect_tangle:
  "collect pick fuel sig ws tg = Some (Returned (ab, sig', ws', tg')) \<Longrightarrow> tg' = tg"
proof (induction fuel arbitrary: sig ws)
  case 0
  then show ?case by simp
next
  case (Suc fuel)
  show ?case
  proof (cases "txsToTraverse ws = []")
    case True
    with Suc.prems show ?thesis by simp
  next
    case False
    show ?thesis
    proof (cases "collectRange (rangeKeys pick (txsToTraverse ws)) sig ws tg")
      case Panic
      with Suc.prems False show ?thesis by simp
    next
      case (Returned r)
      obtain ab1 sig1 ws1 tg1 where r: "r = (ab1, sig1, ws1, tg1)" by (metis prod_cases4)
      from Returned r have t: "tg1 = tg" by (auto dest: collectRange_tangle)
      show ?thesis
      proof (cases ab1)
        case True
        with Suc.prems False Returned r t show ?thesis by simp
      next
        case F: False
        with Suc.prems False Returned r t
        have "collect pick fuel sig1 ws1 tg = Some (Returned (ab, sig', ws', tg'))" by simp
        then show ?thesis by (rule Suc.IH)
      qed
    qed
  qed
qed

subsection \<open>Phase 2 of the walk only marks transactions solid\<close>

lemma ledgerPart_simps [simp]:
  "ledgerPart (Release a tg) = ledgerPart tg"
  "ledgerPart (RegisterConsumer a tg) = ledgerPart tg"
  "ledgerPart (GetCachedTransaction a tg) = ledgerPart tg"
  "ledgerPart (Trigger e tg) = ledgerPart tg"
  "ledgerPart (SetSolid a tg) = ledgerPart tg"
  "ledgerPart (tg\<lparr>cache := c\<rparr>) = ledgerPart tg"
  "ledgerPart (tg\<lparr>events := es\<rparr>) = ledgerPart tg"
  "ledgerPart (tg\<lparr>consumers := f\<rparr>) = ledgerPart tg"
  by (simp_all add: ledgerPart_def Release_def RegisterConsumer_def GetCachedTransaction_def
      Trigger_def SetSolid_def split: option.splits)

lemma walkExtends_refl [simp]: "walkExtends tg tg"
  by (simp add: walkExtends_def)




lemma walkExtends_consumers_left:
  "walkExtends (tg\<lparr>consumers := f\<rparr>) tg' = walkExtends tg tg'"
  by (simp add: walkExtends_def)

lemma walkExtends_consumers_right:
  "walkExtends tg (tg'\<lparr>consumers := g\<rparr>) = walkExtends tg tg'"
  by (simp add: walkExtends_def)

lemma walkExtends_handles [simp]:
  "walkExtends tg (Release a tg') = walkExtends tg tg'"
  "walkExtends tg (RegisterConsumer a tg') = walkExtends tg tg'"
  "walkExtends tg (GetCachedTransaction a tg') = walkExtends tg tg'"
  "walkExtends (Release a tg) tg' = walkExtends tg tg'"
  "walkExtends (RegisterConsumer a tg) tg' = walkExtends tg tg'"
  "walkExtends (GetCachedTransaction a tg) tg' = walkExtends tg tg'"
  by (simp_all add: Release_def RegisterConsumer_def GetCachedTransaction_def
      walkExtends_consumers_left walkExtends_consumers_right)





lemmas walk_defs = solidQueueCheck_def initialWalkState_def rangeKeys_def
  RegisterConsumer_def Release_def GetCachedTransaction_def Exists_def IsSolid_def SetSolid_def
  SolidEntryPointsContain_def Trigger_def approveeHashes_def insertKey_def deleteKey_def
  registerApproverOfApprovee_def IsNodeSynced_def approversOf_def checkSolidity_def Let_def
  mkTangle_def mkTx_def






subsection \<open>Key lists and the order of a range\<close>

lemma pick_in_keys:
  "keys \<noteq> [] \<Longrightarrow> (if pick keys \<in> set keys then pick keys else hd keys) \<in> set keys"
  by simp

lemma insertKey_set [simp]: "set (insertKey k keys) = insert k (set keys)"
  by (auto simp: insertKey_def)

lemma insertKey_distinct [simp]: "distinct keys \<Longrightarrow> distinct (insertKey k keys)"
  by (simp add: insertKey_def)

lemma deleteKey_set [simp]: "set (deleteKey k keys) = set keys - {k}"
  by (simp add: deleteKey_def)

lemma deleteKey_distinct [simp]: "distinct keys \<Longrightarrow> distinct (deleteKey k keys)"
  by (simp add: deleteKey_def distinct_removeAll)

lemma rangeOrder_perm:
  "distinct keys \<Longrightarrow> length keys = n \<Longrightarrow>
     set (rangeOrder pick n keys) = set keys \<and> distinct (rangeOrder pick n keys)"
proof (induction n arbitrary: keys)
  case 0
  then show ?case by simp
next
  case (Suc n)
  define k where "k = (if pick keys \<in> set keys then pick keys else hd keys)"
  from Suc.prems have ne: "keys \<noteq> []" by auto
  then have k: "k \<in> set keys" unfolding k_def by (rule pick_in_keys)
  have d: "distinct (removeAll k keys)" using Suc.prems(1) by (simp add: distinct_removeAll)
  have "removeAll k keys = remove1 k keys"
    using Suc.prems(1) by (simp add: distinct_remove1_removeAll)
  then have "length (removeAll k keys) = n"
    using Suc.prems k by (simp add: length_remove1)
  from Suc.IH [OF d this]
  have ih: "set (rangeOrder pick n (removeAll k keys)) = set keys - {k}"
    "distinct (rangeOrder pick n (removeAll k keys))" by simp_all
  have u: "rangeOrder pick (Suc n) keys = k # rangeOrder pick n (removeAll k keys)"
    by (simp add: k_def Let_def)
  show ?case unfolding u using ih k by auto
qed

lemma rangeKeys_set [simp]: "distinct keys \<Longrightarrow> set (rangeKeys pick keys) = set keys"
  by (simp add: rangeKeys_def rangeOrder_perm)

lemma rangeKeys_distinct [simp]: "distinct keys \<Longrightarrow> distinct (rangeKeys pick keys)"
  by (simp add: rangeKeys_def rangeOrder_perm)

lemma rangeKeys_Nil [simp]: "rangeKeys pick [] = []"
  by (simp add: rangeKeys_def)

lemma rangeKeys_single [simp]: "rangeKeys pick [x] = [x]"
  by (simp add: rangeKeys_def)

lemma foldl_insertKey_set [simp]:
  "set (foldl (\<lambda>keys k. insertKey k keys) acc ks) = set acc \<union> set ks"
  by (induction ks arbitrary: acc) auto

lemma foldl_insertKey_distinct [simp]:
  "distinct acc \<Longrightarrow> distinct (foldl (\<lambda>keys k. insertKey k keys) acc ks)"
  by (induction ks arbitrary: acc) auto

subsection \<open>The walk on a milestone that is already solid\<close>

lemma approversOf_register:
  "approversOf (ws\<lparr>approvers := registerApproverOfApprovee h a (approvers ws)\<rparr>) x =
     (if x = a then insertKey h (approversOf ws a) else approversOf ws x)"
  by (simp add: approversOf_def registerApproverOfApprovee_def Let_def)

lemma approversOf_update_simps [simp]:
  "approversOf (ws\<lparr>txsChecked := c\<rparr>) = approversOf ws"
  "approversOf (ws\<lparr>txsToTraverse := t\<rparr>) = approversOf ws"
  "approversOf (ws\<lparr>txsToRequest := r\<rparr>) = approversOf ws"
  "approversOf (ws\<lparr>entryTxs := e\<rparr>) = approversOf ws"
  by (simp_all add: approversOf_def fun_eq_iff)

lemma collectApprovees_sep:
  "SolidEntryPointsContain tg a \<Longrightarrow>
     collectApprovees h (a # as) e ws tg = collectApprovees h as e ws tg"
  by simp

lemma collectApprovees_checked:
  "\<not> SolidEntryPointsContain tg a \<Longrightarrow> txsChecked ws a = Some v \<Longrightarrow>
     collectApprovees h (a # as) e ws tg =
       collectApprovees h as (if \<not> v then False else e)
         (ws\<lparr>approvers := registerApproverOfApprovee h a (approvers ws)\<rparr>) tg"
  by (simp add: Let_def)

lemma collectApprovees_absent:
  "\<not> SolidEntryPointsContain tg a \<Longrightarrow> txsChecked ws a = None \<Longrightarrow> cache tg a = None \<Longrightarrow>
     collectApprovees h (a # as) e ws tg =
       collectApprovees h as False
         (ws\<lparr>approvers := registerApproverOfApprovee h a (approvers ws),
             txsToRequest := insertKey a (txsToRequest ws),
             txsChecked := (txsChecked ws)(a \<mapsto> False)\<rparr>) tg"
  by (simp add: Let_def Exists_def)

lemma collectApprovees_present:
  "\<not> SolidEntryPointsContain tg a \<Longrightarrow> txsChecked ws a = None \<Longrightarrow> cache tg a = Some atx \<Longrightarrow>
     collectApprovees h (a # as) e ws tg =
       (if Solid atx then
          collectApprovees h as e
            (ws\<lparr>approvers := registerApproverOfApprovee h a (approvers ws),
                txsChecked := (txsChecked ws)(a \<mapsto> True)\<rparr>) tg
        else
          collectApprovees h as False
            (ws\<lparr>approvers := registerApproverOfApprovee h a (approvers ws),
                txsChecked := (txsChecked ws)(a \<mapsto> False),
                txsToTraverse := insertKey a (txsToTraverse ws)\<rparr>) tg)"
  by (simp add: Let_def Exists_def IsSolid_def)

lemma collectApprovees_all_solid:
  assumes "\<forall>a\<in>set as. approveeSolid tg a" "\<forall>x v. txsChecked ws x = Some v \<longrightarrow> v"
    "approversWithin ws (insert h S)"
  shows "\<exists>ws'. collectApprovees h as e ws tg = (e, ws', tg) \<and>
           txsToTraverse ws' = txsToTraverse ws \<and> txsToRequest ws' = txsToRequest ws \<and>
           entryTxs ws' = entryTxs ws \<and> approversWithin ws' (insert h S)"
  using assms
proof (induction as arbitrary: ws)
  case Nil
  then show ?case by simp
next
  case (Cons a as)
  have p1: "\<forall>a\<in>set as. approveeSolid tg a" using Cons.prems(1) by simp
  show ?case
  proof (cases "SolidEntryPointsContain tg a")
    case True
    from Cons.IH [OF p1 Cons.prems(2,3)] show ?thesis
      unfolding collectApprovees_sep [OF True] .
  next
    case False
    with Cons.prems(1) have ex: "Exists tg a" "IsSolid tg a" by (auto simp: approveeSolid_def)
    then obtain atx where c: "cache tg a = Some atx" "Solid atx"
      by (auto simp: Exists_def IsSolid_def)
    let ?ws1 = "ws\<lparr>approvers := registerApproverOfApprovee h a (approvers ws)\<rparr>"
    have aw: "approversWithin ?ws1 (insert h S)"
      using Cons.prems(3) by (auto simp: approversWithin_def approversOf_register)
    have ck: "\<forall>x v. txsChecked ?ws1 x = Some v \<longrightarrow> v" using Cons.prems(2) by simp
    show ?thesis
    proof (cases "txsChecked ws a")
      case None
      let ?ws2 = "ws\<lparr>approvers := registerApproverOfApprovee h a (approvers ws),
                      txsChecked := (txsChecked ws)(a \<mapsto> True)\<rparr>"
      have ck2: "\<forall>x v. txsChecked ?ws2 x = Some v \<longrightarrow> v" using Cons.prems(2) by auto
      have aw2: "approversWithin ?ws2 (insert h S)" using aw by (simp add: approversWithin_def)
      have u: "collectApprovees h (a # as) e ws tg = collectApprovees h as e ?ws2 tg"
        using collectApprovees_present [OF False None c(1)] c(2) by simp
      from Cons.IH [OF p1 ck2 aw2] show ?thesis unfolding u by simp
    next
      case (Some v)
      with Cons.prems(2) have v by blast
      have u: "collectApprovees h (a # as) e ws tg = collectApprovees h as e ?ws1 tg"
        using collectApprovees_checked [OF False Some] \<open>v\<close> by simp
      from Cons.IH [OF p1 ck aw] show ?thesis unfolding u by simp
    qed
  qed
qed

lemma approversWithin_initial: "approversWithin (initialWalkState h) S"
  by (simp add: approversWithin_def approversOf_def initialWalkState_def)

lemma collectRange_solid_tail:
  assumes c: "cache tg h = Some tx" and t: "approveeSolid tg (Trunk tx)"
    and b: "approveeSolid tg (Branch tx)" and p: "poll sig = (False, sig1)"
  shows "\<exists>ws'. collectRange [h] sig (initialWalkState h) tg = Returned (False, sig1, ws', tg) \<and>
           txsToTraverse ws' = [] \<and> txsToRequest ws' = [] \<and> entryTxs ws' = [h] \<and>
           approversWithin ws' {h}"
proof -
  let ?ws1 = "(initialWalkState h)\<lparr>txsToTraverse := deleteKey h (txsToTraverse (initialWalkState h))\<rparr>"
  let ?tg1 = "GetCachedTransaction h tg"
  have a: "\<forall>a\<in>set (approveeHashes tx). approveeSolid ?tg1 a"
    using t b by (simp add: all_approvees)
  have ck: "\<forall>x v. txsChecked ?ws1 x = Some v \<longrightarrow> v" by (simp add: initialWalkState_def)
  have aw: "approversWithin ?ws1 (insert h {})"
    by (simp add: approversWithin_def approversOf_def initialWalkState_def)
  from collectApprovees_all_solid [OF a ck aw, of True] obtain ws2 where
    r: "collectApprovees h (approveeHashes tx) True ?ws1 ?tg1 = (True, ws2, ?tg1)" and
    f: "txsToTraverse ws2 = txsToTraverse ?ws1" "txsToRequest ws2 = txsToRequest ?ws1"
       "entryTxs ws2 = entryTxs ?ws1" "approversWithin ws2 {h}"
    by blast
  have "collectRange [h] sig (initialWalkState h) tg =
          Returned (False, sig1, ws2\<lparr>entryTxs := insertKey h (entryTxs ws2)\<rparr>, tg)"
    using p c r by (simp add: Let_def)
  moreover have "txsToTraverse (ws2\<lparr>entryTxs := insertKey h (entryTxs ws2)\<rparr>) = []"
    using f(1) by (simp add: initialWalkState_def deleteKey_def)
  moreover have "txsToRequest (ws2\<lparr>entryTxs := insertKey h (entryTxs ws2)\<rparr>) = []"
    using f(2) by (simp add: initialWalkState_def)
  moreover have "entryTxs (ws2\<lparr>entryTxs := insertKey h (entryTxs ws2)\<rparr>) = [h]"
    using f(3) by (simp add: initialWalkState_def insertKey_def)
  moreover have "approversWithin (ws2\<lparr>entryTxs := insertKey h (entryTxs ws2)\<rparr>) {h}"
    using f(4) by (simp add: approversWithin_def)
  ultimately show ?thesis by blast
qed

lemma collect_solid_tail:
  assumes c: "cache tg h = Some tx" and t: "approveeSolid tg (Trunk tx)"
    and b: "approveeSolid tg (Branch tx)" and p: "poll sig = (False, sig1)"
  shows "\<exists>ws'. collect pick (Suc (Suc fuel)) sig (initialWalkState h) tg =
              Some (Returned (False, sig1, ws', tg)) \<and>
           txsToRequest ws' = [] \<and> entryTxs ws' = [h] \<and> approversWithin ws' {h}"
proof -
  from collectRange_solid_tail [OF c t b p] obtain ws' where
    r: "collectRange [h] sig (initialWalkState h) tg = Returned (False, sig1, ws', tg)" and
    f: "txsToTraverse ws' = []" "txsToRequest ws' = []" "entryTxs ws' = [h]"
       "approversWithin ws' {h}" by blast
  have "collect pick (Suc (Suc fuel)) sig (initialWalkState h) tg = collect pick (Suc fuel) sig1 ws' tg"
    using r by (simp add: initialWalkState_def)
  also have "\<dots> = Some (Returned (False, sig1, ws', tg))" using f(1) by simp
  finally show ?thesis using f by blast
qed

lemma deleteKey_all: "set ys \<subseteq> {h} \<Longrightarrow> deleteKey h ys = []"
  by (induction ys) (auto simp: deleteKey_def)

lemma propagateRange_solid_tail:
  assumes c: "cache tg h = Some tx" and s: "Solid tx" and e: "entryTxs ws = [h]"
    and aw: "approversWithin ws {h}" and p: "poll sig = (False, sig1)"
  shows "\<exists>ws'. propagateRange pick [h] sig False ws tg = Returned (False, sig1, True, ws', tg) \<and>
           entryTxs ws' = []"
proof -
  let ?tg1 = "GetCachedTransaction h tg"
  have cs: "checkSolidity h False ?tg1 = Returned (True, False, ?tg1)"
    using c s by (intro checkSolidity_solid) simp_all
  let ?ws1 = "ws\<lparr>entryTxs := foldl (\<lambda>keys k. insertKey k keys) (entryTxs ws)
                                 (rangeKeys pick (approversOf ws h))\<rparr>"
  let ?ws2 = "?ws1\<lparr>entryTxs := deleteKey h (entryTxs ?ws1)\<rparr>"
  from aw have d: "distinct (approversOf ws h)" and sub: "set (approversOf ws h) \<subseteq> {h}"
    by (simp_all add: approversWithin_def)
  have "set (entryTxs ?ws1) \<subseteq> {h}" using e d sub by simp
  then have e2: "entryTxs ?ws2 = []" by (simp add: deleteKey_all)
  have ex: "Exists ?tg1 h" using c by (simp add: Exists_def)
  have "propagateRange pick [h] sig False ws tg = Returned (False, sig1, True, ?ws2, tg)"
    using p ex cs by (simp add: Let_def)
  with e2 show ?thesis by blast
qed

lemma propagate_solid_tail:
  assumes c: "cache tg h = Some tx" and s: "Solid tx" and e: "entryTxs ws = [h]"
    and aw: "approversWithin ws {h}" and p: "poll sig = (False, sig1)"
  shows "\<exists>ws'. propagate pick (Suc (Suc fuel)) sig ws tg = Some (Returned (False, sig1, ws', tg)) \<and>
           entryTxs ws' = []"
proof -
  from propagateRange_solid_tail [OF c s e aw p, of pick] obtain ws' where
    r: "propagateRange pick [h] sig False ws tg = Returned (False, sig1, True, ws', tg)"
    and e': "entryTxs ws' = []" by blast
  have "propagate pick (Suc (Suc fuel)) sig ws tg = propagate pick (Suc fuel) sig1 ws' tg"
    using r e by simp
  also have "\<dots> = Some (Returned (False, sig1, ws', tg))" using e' by simp
  finally show ?thesis using e' by blast
qed

lemma propagate_abort:
  assumes e: "entryTxs ws = [h]" and p: "poll sig = (True, sig1)"
  shows "propagate pick (Suc fuel) sig ws tg = Some (Returned (True, sig1, ws, tg))"
  using e p by simp

lemma collect_abort:
  assumes p: "poll sig = (True, sig1)"
  shows "collect pick (Suc fuel) sig (initialWalkState h) tg =
           Some (Returned (True, sig1, initialWalkState h, tg))"
  using p by (simp add: initialWalkState_def)

text \<open>
  Claim C9. The tail of the milestone is in the cache with its solid flag set, and its
  trunk and branch are each a solid entry point or in the cache and solid (what the solid
  flag of the tail stands for). Then the walk returns \<open>(true, false)\<close>, solid and not
  aborted, and the store after the walk is the store before it: no flag, no event, no
  gossip request, no submission to the future-cone pool, no reference count has changed.
  The walk polls the abort signal twice; when the signal fires before the second poll the
  walk returns \<open>(false, true)\<close> instead, the store unchanged all the same.
\<close>

theorem solidQueueCheck_already_solid:
  assumes c: "cache tg milestoneTail = Some tx" and s: "Solid tx"
    and t: "approveeSolid tg (Trunk tx)" and b: "approveeSolid tg (Branch tx)"
    and fl: "2 \<le> fuel"
  shows "solidQueueCheck pick fuel idx milestoneTail sig tg =
           Some (Returned
             (case sig of
                None \<Rightarrow> (True, False, None, tg)
              | Some n \<Rightarrow> if n < 2 then (False, True, Some 0, tg)
                          else (True, False, Some (n - 2), tg)))"
proof -
  from fl obtain f where fuel: "fuel = Suc (Suc f)"
    by (metis Suc_le_D numeral_2_eq_2 Suc_le_mono)
  let ?tg0 = "RegisterConsumer milestoneTail tg"
  have c0: "cache ?tg0 milestoneTail = Some tx" using c by simp
  have t0: "approveeSolid ?tg0 (Trunk tx)" "approveeSolid ?tg0 (Branch tx)" using t b by simp_all
  have walk: "solidQueueCheck pick fuel idx milestoneTail sig tg = Some (Returned (True, False, sig2, tg))"
    if p1: "poll sig = (False, sig1)" and p2: "poll sig1 = (False, sig2)" for sig1 sig2
  proof -
    from collect_solid_tail [OF c0 t0 p1, of pick f] obtain ws1 where
      r1: "collect pick fuel sig (initialWalkState milestoneTail) ?tg0 =
              Some (Returned (False, sig1, ws1, ?tg0))" and
      f1: "txsToRequest ws1 = []" "entryTxs ws1 = [milestoneTail]"
          "approversWithin ws1 {milestoneTail}" unfolding fuel by blast
    from propagate_solid_tail [OF c0 s f1(2,3) p2, of pick f] obtain ws2 where
      r2: "propagate pick fuel sig1 ws1 ?tg0 = Some (Returned (False, sig2, ws2, ?tg0))" and
      f2: "entryTxs ws2 = []" unfolding fuel by blast
    show ?thesis using r1 f1 r2 f2 by (simp add: solidQueueCheck_def)
  qed
  have ab1: "solidQueueCheck pick fuel idx milestoneTail sig tg = Some (Returned (False, True, sig1, tg))"
    if p1: "poll sig = (True, sig1)" for sig1
    using collect_abort [OF p1, of pick "Suc f" milestoneTail ?tg0]
    by (simp add: solidQueueCheck_def fuel)
  have ab2: "solidQueueCheck pick fuel idx milestoneTail sig tg = Some (Returned (False, True, sig2, tg))"
    if p1: "poll sig = (False, sig1)" and p2: "poll sig1 = (True, sig2)" for sig1 sig2
  proof -
    from collect_solid_tail [OF c0 t0 p1, of pick f] obtain ws1 where
      r1: "collect pick fuel sig (initialWalkState milestoneTail) ?tg0 =
              Some (Returned (False, sig1, ws1, ?tg0))" and
      f1: "txsToRequest ws1 = []" "entryTxs ws1 = [milestoneTail]"
          "approversWithin ws1 {milestoneTail}" unfolding fuel by blast
    from propagate_abort [OF f1(2) p2, of pick "Suc f" ?tg0]
    have r2: "propagate pick fuel sig1 ws1 ?tg0 = Some (Returned (True, sig2, ws1, ?tg0))"
      unfolding fuel .
    show ?thesis using r1 f1 r2 by (simp add: solidQueueCheck_def)
  qed
  show ?thesis
  proof (cases sig)
    case None
    then show ?thesis using walk [of None None] by simp
  next
    case (Some n)
    show ?thesis
    proof (cases n)
      case 0
      with Some show ?thesis using ab1 [of "Some 0"] by simp
    next
      case (Suc m)
      show ?thesis
      proof (cases m)
        case 0
        with Some Suc show ?thesis using ab2 [of "Some 0" "Some 0"] by simp
      next
        case (Suc k)
        with Some \<open>n = Suc m\<close> show ?thesis using walk [of "Some (Suc k)" "Some k"] by simp
      qed
    qed
  qed
qed

theorem solidQueueCheck_already_solid_witness:
  "solidQueueCheck hd 2 1 ''T'' None tangleSolid = Some (Returned (True, False, None, tangleSolid))"
  using solidQueueCheck_already_solid [of tangleSolid "''T''" "mkTx ''A'' ''E'' True True" 2 hd 1 None]
  by (simp add: tangleSolid_def mkTangle_def mkTx_def approveeSolid_def
      SolidEntryPointsContain_def Exists_def IsSolid_def)

subsection \<open>The log only grows\<close>

lemma eventsExtend_refl [simp]: "eventsExtend tg tg"
  by (simp add: eventsExtend_def)


lemma eventsExtend_simps [simp]:
  "eventsExtend tg (Release a tg') = eventsExtend tg tg'"
  "eventsExtend tg (RegisterConsumer a tg') = eventsExtend tg tg'"
  "eventsExtend tg (GetCachedTransaction a tg') = eventsExtend tg tg'"
  "eventsExtend (Release a tg) tg' = eventsExtend tg tg'"
  "eventsExtend (RegisterConsumer a tg) tg' = eventsExtend tg tg'"
  "eventsExtend (GetCachedTransaction a tg) tg' = eventsExtend tg tg'"
  "eventsExtend tg (setSolidifierMilestoneIndex i tg') = eventsExtend tg tg'"
  "eventsExtend tg (SetSolidMilestone m tg') = eventsExtend tg tg'"
  by (simp_all add: eventsExtend_def Release_def RegisterConsumer_def GetCachedTransaction_def
      setSolidifierMilestoneIndex_def SetSolidMilestone_def)










subsection \<open>solidifyMilestone\<close>


lemma collect_numeral:
  "collect pick (numeral k) sig ws tg =
     (if txsToTraverse ws = [] then Some (Returned (False, sig, ws, tg))
      else
        (case collectRange (rangeKeys pick (txsToTraverse ws)) sig ws tg of
           Panic \<Rightarrow> Some Panic
         | Returned (True, rest) \<Rightarrow> Some (Returned (True, rest))
         | Returned (False, sig1, ws1, tg1) \<Rightarrow> collect pick (pred_numeral k) sig1 ws1 tg1))"
  by (simp add: numeral_eq_Suc)

lemma propagate_numeral:
  "propagate pick (numeral k) sig ws tg =
     (case propagateRange pick (rangeKeys pick (entryTxs ws)) sig False ws tg of
        Panic \<Rightarrow> Some Panic
      | Returned (True, sig1, newSolidTxFound, ws1, tg1) \<Rightarrow> Some (Returned (True, sig1, ws1, tg1))
      | Returned (False, sig1, newSolidTxFound, ws1, tg1) \<Rightarrow>
          if newSolidTxFound then propagate pick (pred_numeral k) sig1 ws1 tg1
          else Some (Returned (False, sig1, ws1, tg1)))"
  by (simp add: numeral_eq_Suc)

lemma collect_One:
  "collect pick 1 sig ws tg =
     (if txsToTraverse ws = [] then Some (Returned (False, sig, ws, tg))
      else
        (case collectRange (rangeKeys pick (txsToTraverse ws)) sig ws tg of
           Panic \<Rightarrow> Some Panic
         | Returned (True, rest) \<Rightarrow> Some (Returned (True, rest))
         | Returned (False, sig1, ws1, tg1) \<Rightarrow> collect pick 0 sig1 ws1 tg1))"
  using collect.simps(2) [of pick 0 sig ws tg] by simp

lemma propagate_One:
  "propagate pick 1 sig ws tg =
     (case propagateRange pick (rangeKeys pick (entryTxs ws)) sig False ws tg of
        Panic \<Rightarrow> Some Panic
      | Returned (True, sig1, newSolidTxFound, ws1, tg1) \<Rightarrow> Some (Returned (True, sig1, ws1, tg1))
      | Returned (False, sig1, newSolidTxFound, ws1, tg1) \<Rightarrow>
          if newSolidTxFound then propagate pick 0 sig1 ws1 tg1
          else Some (Returned (False, sig1, ws1, tg1)))"
  using propagate.simps(2) [of pick 0 sig ws tg] by simp

lemma poll_numeral [simp]:
  "poll (Some (numeral k)) = (False, Some (pred_numeral k))"
  "poll (Some 1) = (False, Some 0)"
  by (simp_all add: numeral_eq_Suc)

lemmas fuel_simps = collect_numeral propagate_numeral collect_One propagate_One



lemmas orchestrator_defs = solidifyMilestone_def solidifyGapped_def solidifyContiguous_def
  abortMilestoneSolidification_def setSolidifierMilestoneIndex_def FindClosestNextMilestone_def
  GetTail_def confirmMilestone_def SetSolidMilestone_def maxMissingMilestoneSearchDepth_def
  olderAttemptRunning_def








text \<open>
  Claim C4 fails on the return of line 343. The milestone of index 6 is solid but the
  confirmed index is 3; the search registers the milestone of index 4 and the call
  returns. The handle of the tail \<open>M6\<close> that \<^verbatim>\<open>GetTail\<close> handed out is not given back:
  its reference count after the call is one above the count before. (The node is not
  synced here, so nothing was handed to the future-cone pool.)
\<close>

theorem solidifyMilestone_gapped_keeps_tail_handle:
  "solidifyMilestone hd 5 None 0 tangleGapped =
     Some (Returned (tangleGapped
       \<lparr>cache := (cache tangleGapped)(''M4'' \<mapsto> mkTx ''E'' ''E'' True True,
                                      ''M6'' \<mapsto> mkTx ''M4'' ''E'' True True),
        consumers := (consumers tangleGapped)(''M6'' := consumers tangleGapped ''M6'' + 1),
        solidifierMilestoneIndex := 0,
        signalChanMilestoneStopSolidification := True,
        events := [SolidifierLock, TransactionSolid ''M4'', TransactionSolid ''M6'',
                   ProcessValidMilestone 4, TrySubmit 0, SolidifierUnlock]\<rparr>))"
  by (simp add: tangleGapped_def orchestrator_defs walk_defs searchMissingMilestone_def
      milestoneInRange_def IsMaybeMilestone_def processValidMilestone_def milestoneBucket_def
      searchLoop_numeral fuel_simps fun_eq_iff)

subsection \<open>Phase 1 of the walk requests the missing ancestors\<close>

lemma collectApprovees_effect:
  "collectApprovees h as e ws tg = (e', ws', tg') \<Longrightarrow>
     distinct (txsToTraverse ws) \<Longrightarrow> distinct (txsToRequest ws) \<Longrightarrow>
     tg' = tg \<and> entryTxs ws' = entryTxs ws \<and>
     distinct (txsToTraverse ws') \<and> distinct (txsToRequest ws') \<and>
     (\<forall>a. txsChecked ws' a = (if a \<in> newlyChecked tg ws as then Some (IsSolid tg a) else txsChecked ws a)) \<and>
     set (txsToRequest ws') = set (txsToRequest ws) \<union> {a \<in> newlyChecked tg ws as. cache tg a = None} \<and>
     set (txsToTraverse ws') = set (txsToTraverse ws) \<union>
        {a \<in> newlyChecked tg ws as. cache tg a \<noteq> None \<and> \<not> IsSolid tg a}"
proof (induction as arbitrary: e ws)
  case Nil
  then show ?case by (simp add: newlyChecked_def)
next
  case (Cons a as)
  show ?case
  proof (cases "SolidEntryPointsContain tg a")
    case True
    have n: "newlyChecked tg ws (a # as) = newlyChecked tg ws as"
      using True by (auto simp: newlyChecked_def)
    from Cons.prems(1) have "collectApprovees h as e ws tg = (e', ws', tg')"
      unfolding collectApprovees_sep [OF True] .
    from Cons.IH [OF this Cons.prems(2,3)] show ?thesis unfolding n .
  next
    case False
    let ?ws1 = "ws\<lparr>approvers := registerApproverOfApprovee h a (approvers ws)\<rparr>"
    show ?thesis
    proof (cases "txsChecked ws a")
      case (Some v)
      have n: "newlyChecked tg ws (a # as) = newlyChecked tg ?ws1 as"
        using Some by (auto simp: newlyChecked_def)
      from Cons.prems(1)
      have "collectApprovees h as (if \<not> v then False else e) ?ws1 tg = (e', ws', tg')"
        unfolding collectApprovees_checked [OF False Some] .
      from Cons.IH [OF this] Cons.prems(2,3) show ?thesis unfolding n by simp
    next
      case None
      show ?thesis
      proof (cases "cache tg a")
        case cn: None
        let ?ws2 = "ws\<lparr>approvers := registerApproverOfApprovee h a (approvers ws),
             txsToRequest := insertKey a (txsToRequest ws),
             txsChecked := (txsChecked ws)(a \<mapsto> False)\<rparr>"
        have n: "newlyChecked tg ws (a # as) = insert a (newlyChecked tg ?ws2 as)"
          using None False by (auto simp: newlyChecked_def)
        have na: "a \<notin> newlyChecked tg ?ws2 as" by (simp add: newlyChecked_def)
        have s: "IsSolid tg a = False" using cn by (simp add: IsSolid_def)
        from Cons.prems(1)
        have "collectApprovees h as False ?ws2 tg = (e', ws', tg')"
          unfolding collectApprovees_absent [OF False None cn] .
        from Cons.IH [OF this] Cons.prems(2,3)
        have ih: "tg' = tg" "entryTxs ws' = entryTxs ?ws2"
          "distinct (txsToTraverse ws')" "distinct (txsToRequest ws')"
          "\<And>x. txsChecked ws' x = (if x \<in> newlyChecked tg ?ws2 as then Some (IsSolid tg x) else txsChecked ?ws2 x)"
          "set (txsToRequest ws') = set (txsToRequest ?ws2) \<union> {x \<in> newlyChecked tg ?ws2 as. cache tg x = None}"
          "set (txsToTraverse ws') = set (txsToTraverse ?ws2) \<union>
              {x \<in> newlyChecked tg ?ws2 as. cache tg x \<noteq> None \<and> \<not> IsSolid tg x}"
          by simp_all
        show ?thesis unfolding n using ih na s cn by auto
      next
        case (Some atx)
        show ?thesis
        proof (cases "Solid atx")
          case True
          let ?ws2 = "ws\<lparr>approvers := registerApproverOfApprovee h a (approvers ws),
                txsChecked := (txsChecked ws)(a \<mapsto> True)\<rparr>"
          have n: "newlyChecked tg ws (a # as) = insert a (newlyChecked tg ?ws2 as)"
            using None False by (auto simp: newlyChecked_def)
          have na: "a \<notin> newlyChecked tg ?ws2 as" by (simp add: newlyChecked_def)
          have s: "IsSolid tg a = True" using Some True by (simp add: IsSolid_def)
          from Cons.prems(1)
          have "collectApprovees h as e ?ws2 tg = (e', ws', tg')"
            unfolding collectApprovees_present [OF False None Some] using True by simp
          from Cons.IH [OF this] Cons.prems(2,3)
          have ih: "tg' = tg" "entryTxs ws' = entryTxs ?ws2"
            "distinct (txsToTraverse ws')" "distinct (txsToRequest ws')"
            "\<And>x. txsChecked ws' x = (if x \<in> newlyChecked tg ?ws2 as then Some (IsSolid tg x) else txsChecked ?ws2 x)"
            "set (txsToRequest ws') = set (txsToRequest ?ws2) \<union> {x \<in> newlyChecked tg ?ws2 as. cache tg x = None}"
            "set (txsToTraverse ws') = set (txsToTraverse ?ws2) \<union>
                {x \<in> newlyChecked tg ?ws2 as. cache tg x \<noteq> None \<and> \<not> IsSolid tg x}"
            by simp_all
          show ?thesis unfolding n using ih na s Some by auto
        next
          case ns: False
          let ?ws2 = "ws\<lparr>approvers := registerApproverOfApprovee h a (approvers ws),
                txsChecked := (txsChecked ws)(a \<mapsto> False),
                txsToTraverse := insertKey a (txsToTraverse ws)\<rparr>"
          have n: "newlyChecked tg ws (a # as) = insert a (newlyChecked tg ?ws2 as)"
            using None False by (auto simp: newlyChecked_def)
          have na: "a \<notin> newlyChecked tg ?ws2 as" by (simp add: newlyChecked_def)
          have s: "IsSolid tg a = False" using Some ns by (simp add: IsSolid_def)
          from Cons.prems(1)
          have "collectApprovees h as False ?ws2 tg = (e', ws', tg')"
            unfolding collectApprovees_present [OF False None Some] using ns by simp
          from Cons.IH [OF this] Cons.prems(2,3)
          have ih: "tg' = tg" "entryTxs ws' = entryTxs ?ws2"
            "distinct (txsToTraverse ws')" "distinct (txsToRequest ws')"
            "\<And>x. txsChecked ws' x = (if x \<in> newlyChecked tg ?ws2 as then Some (IsSolid tg x) else txsChecked ?ws2 x)"
            "set (txsToRequest ws') = set (txsToRequest ?ws2) \<union> {x \<in> newlyChecked tg ?ws2 as. cache tg x = None}"
            "set (txsToTraverse ws') = set (txsToTraverse ?ws2) \<union>
                {x \<in> newlyChecked tg ?ws2 as. cache tg x \<noteq> None \<and> \<not> IsSolid tg x}"
            by simp_all
          show ?thesis unfolding n using ih na s Some by auto
        qed
      qed
    qed
  qed
qed

lemma newlyChecked_simps [simp]:
  "newlyChecked (GetCachedTransaction k tg) ws as = newlyChecked tg ws as"
  "newlyChecked tg (ws\<lparr>txsToTraverse := t\<rparr>) as = newlyChecked tg ws as"
  by (simp_all add: newlyChecked_def)












lemma reachable_same_cache:
  assumes "cache tg' = cache tg" "solidEntryPoints tg' = solidEntryPoints tg"
    and "reachable tg mt h"
  shows "reachable tg' mt h"
  using assms(3)
proof induction
  case reachable_tail
  show ?case by (rule reachable.reachable_tail)
next
  case (reachable_approvee h tx a)
  show ?case
    by (rule reachable.reachable_approvee [OF reachable_approvee.IH, of tx])
       (use reachable_approvee.hyps assms(1,2) in \<open>simp_all add: SolidEntryPointsContain_def\<close>)
qed

lemma reachable_Register [simp]: "reachable (RegisterConsumer x tg) mt h = reachable tg mt h"
  by (auto intro: reachable_same_cache [of _ "RegisterConsumer x tg"]
        reachable_same_cache [of "RegisterConsumer x tg"])

lemma SEP_Register [simp]:
  "SolidEntryPointsContain (RegisterConsumer x tg) h = SolidEntryPointsContain tg h"
  by (simp add: SolidEntryPointsContain_def)





subsection \<open>Termination of the walk\<close>







lemma approversSound_updates [simp]:
  "approversSound tg (ws\<lparr>txsChecked := c\<rparr>) = approversSound tg ws"
  "approversSound tg (ws\<lparr>txsToTraverse := t\<rparr>) = approversSound tg ws"
  "approversSound tg (ws\<lparr>txsToRequest := r\<rparr>) = approversSound tg ws"
  by (simp_all add: approversSound_def)


lemma approveeEdges_GetCached [simp]:
  "approveeEdges (GetCachedTransaction k tg) = approveeEdges tg"
  by (simp add: approveeEdges_def)

lemma approversSound_GetCached [simp]:
  "approversSound (GetCachedTransaction k tg) ws = approversSound tg ws"
  by (simp add: approversSound_def)










lemma approveeEdges_Register [simp]: "approveeEdges (RegisterConsumer x tg) = approveeEdges tg"
  by (simp add: approveeEdges_def)

lemma collectApprovees_adds_unchecked_only:
  assumes "collectApprovees h as e ws tg = (e', ws', tg')"
    "distinct (txsToTraverse ws)" "distinct (txsToRequest ws)"
  shows "set (txsToTraverse ws') - set (txsToTraverse ws) \<subseteq>
           dom (txsChecked ws') - dom (txsChecked ws)"
proof -
  from collectApprovees_effect [OF assms]
  have ck: "\<And>a. txsChecked ws' a =
              (if a \<in> newlyChecked tg ws as then Some (IsSolid tg a) else txsChecked ws a)"
    and tr: "set (txsToTraverse ws') = set (txsToTraverse ws) \<union>
        {a \<in> newlyChecked tg ws as. cache tg a \<noteq> None \<and> \<not> IsSolid tg a}"
    by simp_all
  show ?thesis
  proof
    fix a assume "a \<in> set (txsToTraverse ws') - set (txsToTraverse ws)"
    with tr have n: "a \<in> newlyChecked tg ws as" by auto
    then have "txsChecked ws a = None" by (simp add: newlyChecked_def)
    moreover from n ck have "txsChecked ws' a \<noteq> None" by simp
    ultimately show "a \<in> dom (txsChecked ws') - dom (txsChecked ws)" by auto
  qed
qed





subsection \<open>A walk keeps the invariant of the solid flag\<close>

text \<open>
  The hypothesis of the theorem on the requested hashes is an invariant of the code: a
  walk that starts in a store where no transaction marked solid has a missing or unsolid
  parent ends in such a store.
\<close>

lemma solidClosed_frame:
  "cache tg' = cache tg \<Longrightarrow> solidEntryPoints tg' = solidEntryPoints tg \<Longrightarrow>
   solidClosed tg' = solidClosed tg"
  by (simp add: solidClosed_def approveeSolid_def SolidEntryPointsContain_def Exists_def IsSolid_def)

lemma solidClosed_simps [simp]:
  "solidClosed (Release a tg) = solidClosed tg"
  "solidClosed (RegisterConsumer a tg) = solidClosed tg"
  "solidClosed (GetCachedTransaction a tg) = solidClosed tg"
  "solidClosed (Trigger e tg) = solidClosed tg"
  by (rule solidClosed_frame;
      simp add: Release_def RegisterConsumer_def GetCachedTransaction_def Trigger_def)+

lemma approveeSolid_mark:
  "approveeSolid tg a \<Longrightarrow> cache tg h = Some tx \<Longrightarrow>
   approveeSolid (tg\<lparr>cache := (cache tg)(h \<mapsto> tx\<lparr>Solid := True\<rparr>), events := es\<rparr>) a"
  by (auto simp: approveeSolid_def SolidEntryPointsContain_def Exists_def IsSolid_def)

lemma checkSolidity_solidClosed:
  assumes r: "checkSolidity h False tg = Returned (s, n, tg')" and sc: "solidClosed tg"
  shows "solidClosed tg'"
proof -
  from r obtain tx where c: "cache tg h = Some tx"
    by (auto simp: checkSolidity_def split: option.splits)
  show ?thesis
  proof (cases "Solid tx")
    case True
    with checkSolidity_solid [OF c, of False] r sc show ?thesis by simp
  next
    case False
    show ?thesis
    proof (cases "approveeSolid tg (Trunk tx) \<and>
                  (Trunk tx \<noteq> Branch tx \<longrightarrow> approveeSolid tg (Branch tx))")
      case True
      let ?tg' = "tg\<lparr>cache := (cache tg)(h \<mapsto> tx\<lparr>Solid := True\<rparr>),
               events := events tg @ [TransactionSolid h]\<rparr>"
      from checkSolidity_newly [OF c False, of False] r True have t: "tg' = ?tg'" by simp
      have par: "approveeSolid tg (Trunk tx)" "approveeSolid tg (Branch tx)"
        using True by (cases "Trunk tx = Branch tx"; simp)+
      have "solidClosed ?tg'"
        unfolding solidClosed_def
      proof (intro allI impI)
        fix x xt assume a: "cache ?tg' x = Some xt \<and> Solid xt"
        show "approveeSolid ?tg' (Trunk xt) \<and> approveeSolid ?tg' (Branch xt)"
        proof (cases "x = h")
          case True
          with a have "Trunk xt = Trunk tx" "Branch xt = Branch tx" by auto
          with par c show ?thesis by (simp add: approveeSolid_mark)
        next
          case False
          with a have "cache tg x = Some xt \<and> Solid xt" by simp
          with sc have "approveeSolid tg (Trunk xt) \<and> approveeSolid tg (Branch xt)"
            unfolding solidClosed_def by blast
          with c show ?thesis by (simp add: approveeSolid_mark)
        qed
      qed
      with t show ?thesis by simp
    next
      case F: False
      with checkSolidity_fails [OF c False, of False] r sc show ?thesis by simp
    qed
  qed
qed

lemma propagateRange_solidClosed:
  "propagateRange pick keys sig f ws tg = Returned (ab, sig', f', ws', tg') \<Longrightarrow> solidClosed tg \<Longrightarrow>
   solidClosed tg'"
proof (induction keys arbitrary: sig f ws tg)
  case Nil
  then show ?case by simp
next
  case (Cons k keys)
  show ?case
  proof (cases sig rule: poll_cases)
    case (abort sig1)
    with Cons.prems show ?thesis by simp
  next
    case (go sig1)
    let ?tg1 = "GetCachedTransaction k tg"
    from Cons.prems(1) go have ex: "Exists ?tg1 k" by (auto simp: Let_def split: if_splits)
    from Cons.prems(1) go ex obtain s n tg2 where cs: "checkSolidity k False ?tg1 = Returned (s, n, tg2)"
      by (cases "checkSolidity k False ?tg1") (auto simp: Let_def)
    have s2: "solidClosed tg2" using checkSolidity_solidClosed [OF cs] Cons.prems(2) by simp
    show ?thesis
    proof (cases s)
      case False
      with Cons.prems(1) go ex cs
      have "propagateRange pick keys sig1 f ws (Release k tg2) = Returned (ab, sig', f', ws', tg')"
        by (simp add: Let_def)
      from Cons.IH [OF this] s2 show ?thesis by simp
    next
      case True
      let ?tg3 = "if n \<and> IsNodeSynced tg2 then
                    Trigger (GossipSolidifierSubmit k) (RegisterConsumer k tg2) else tg2"
      have s3: "solidClosed (Release k ?tg3)" using s2 by simp
      from Cons.prems(1) go ex cs True obtain ws2 where
        "propagateRange pick keys sig1 True ws2 (Release k ?tg3) = Returned (ab, sig', f', ws', tg')"
        by (simp add: Let_def)
      from Cons.IH [OF this s3] show ?thesis .
    qed
  qed
qed

lemma propagate_solidClosed:
  "propagate pick fuel sig ws tg = Some (Returned (ab, sig', ws', tg')) \<Longrightarrow> solidClosed tg \<Longrightarrow>
   solidClosed tg'"
proof (induction fuel arbitrary: sig ws tg)
  case 0
  then show ?case by simp
next
  case (Suc fuel)
  show ?case
  proof (cases "propagateRange pick (rangeKeys pick (entryTxs ws)) sig False ws tg")
    case Panic
    with Suc.prems show ?thesis by simp
  next
    case (Returned r)
    obtain ab1 sig1 f1 ws1 tg1 where r: "r = (ab1, sig1, f1, ws1, tg1)" by (metis prod_cases5)
    from Returned r Suc.prems(2) have w: "solidClosed tg1" by (auto dest: propagateRange_solidClosed)
    show ?thesis
    proof (cases "ab1 \<or> \<not> f1")
      case True
      with Suc.prems Returned r have "tg' = tg1" by (auto split: if_splits bool.splits)
      with w show ?thesis by simp
    next
      case False
      with Suc.prems Returned r
      have "propagate pick fuel sig1 ws1 tg1 = Some (Returned (ab, sig', ws', tg'))" by simp
      from Suc.IH [OF this w] show ?thesis .
    qed
  qed
qed

lemma solidQueueCheck_solidClosed:
  assumes r: "solidQueueCheck pick fuel idx mt sig tg = Some (Returned (s, a, sig', tg'))"
    and sc: "solidClosed tg"
  shows "solidClosed tg'"
proof -
  let ?tg0 = "RegisterConsumer mt tg"
  from r obtain rr where c: "collect pick fuel sig (initialWalkState mt) ?tg0 = Some (Returned rr)"
    by (auto simp: solidQueueCheck_def split: option.splits Outcome.splits)
  obtain ab1 sig1 ws1 tg1 where rr: "rr = (ab1, sig1, ws1, tg1)" by (metis prod_cases4)
  from c rr have t1: "tg1 = ?tg0" by (auto dest: collect_tangle)
  show ?thesis
  proof (cases ab1)
    case True
    with r c rr t1 have "tg' = tg" by (simp add: solidQueueCheck_def)
    with sc show ?thesis by simp
  next
    case False
    show ?thesis
    proof (cases "txsToRequest ws1 = []")
      case req: False
      with r c rr t1 False
      have "tg' = Release mt (Trigger (RequestMulti (rangeKeys pick (txsToRequest ws1)) idx) ?tg0)"
        by (simp add: solidQueueCheck_def)
      with sc show ?thesis by simp
    next
      case True
      from r c rr t1 False True obtain ab2 sig2 ws2 tg2 where
        p: "propagate pick fuel sig1 ws1 ?tg0 = Some (Returned (ab2, sig2, ws2, tg2))"
        and t: "tg' = Release mt tg2"
        by (auto simp: solidQueueCheck_def split: option.splits Outcome.splits bool.splits if_splits)
      from propagate_solidClosed [OF p] sc t show ?thesis by simp
    qed
  qed
qed

end
